theory Spec2Isabelle
  imports Complex_Main "HOL-Library.Word"
begin

unbundle bit_operations_syntax

section \<open>Board engine (src/game/engine4x4.js and its 5x5 twin)\<close>

text \<open>
  A board is a \<open>Uint8Array(SIZE * SIZE)\<close> of tile codes: 0 is the empty cell and a code
  \<open>k > 0\<close> stands for the tile \<open>2 ^ k\<close>. The 4x4 and the 5x5 engine are the same text
  up to the module constant \<open>SIZE\<close>, which is the first argument \<open>sz\<close> of every function
  below. Typed-array cells are 8-bit words, so \<open>line[i]++\<close> wraps at 255.
\<close>

type_synonym cell = "8 word"
type_synonym board = "cell list"

definition TOTAL :: "nat \<Rightarrow> nat" where
  "TOTAL sz = sz * sz"

text \<open>
  \<open>1 << c\<close> in JavaScript: the shift count is taken modulo 32 and the result is a
  signed 32-bit integer.
\<close>

definition js_shl1 :: "cell \<Rightarrow> int" where
  "js_shl1 c = sint (push_bit (unat c mod 32) (1 :: 32 word))"

definition tileValue :: "cell \<Rightarrow> int" where
  "tileValue log2val = (if log2val = 0 then 0 else js_shl1 log2val)"

subsection \<open>slideLine\<close>

text \<open>The compaction loop \<open>for (i = 0; i < size; i++) if (line[i] !== 0) line[write++] = line[i]\<close>.\<close>

function compact_loop :: "nat \<Rightarrow> nat \<Rightarrow> nat \<Rightarrow> cell list \<Rightarrow> nat \<times> cell list" where
  "compact_loop sz i write line =
     (if i < sz then
        (if line ! i \<noteq> 0 then compact_loop sz (i + 1) (write + 1) (line[write := line ! i])
         else compact_loop sz (i + 1) write line)
      else (write, line))"
  by pat_completeness auto
termination
  by (relation "measure (\<lambda>(sz, i, write, line). sz - i)") auto

declare compact_loop.simps [simp del]

text \<open>The fill loop \<open>for (i = write; i < size; i++) line[i] = 0\<close>.\<close>

function zero_loop :: "nat \<Rightarrow> nat \<Rightarrow> cell list \<Rightarrow> cell list" where
  "zero_loop sz i line = (if i < sz then zero_loop sz (i + 1) (line[i := 0]) else line)"
  by pat_completeness auto
termination
  by (relation "measure (\<lambda>(sz, i, line). sz - i)") auto

declare zero_loop.simps [simp del]

text \<open>
  The merge loop: one pass from the front; a merge increments the code, adds
  \<open>1 << line[i]\<close> to the reward, empties the consumed cell and skips it.
\<close>

function merge_loop :: "nat \<Rightarrow> nat \<Rightarrow> int \<Rightarrow> cell list \<Rightarrow> int \<times> cell list" where
  "merge_loop sz i reward line =
     (if i < sz - 1 then
        (if line ! i \<noteq> 0 \<and> line ! i = line ! (i + 1) then
           (let line1 = line[i := line ! i + 1];
                reward1 = reward + js_shl1 (line1 ! i);
                line2 = line1[i + 1 := 0]
            in merge_loop sz (i + 2) reward1 line2)
         else merge_loop sz (i + 1) reward line)
      else (reward, line))"
  by pat_completeness auto
termination
  by (relation "measure (\<lambda>(sz, i, reward, line). sz - i)") auto

declare merge_loop.simps [simp del]

definition compact_line :: "cell list \<Rightarrow> nat \<Rightarrow> cell list" where
  "compact_line line sz = (case compact_loop sz 0 0 line of (write, line1) \<Rightarrow> zero_loop sz write line1)"

definition slideLine :: "cell list \<Rightarrow> nat \<Rightarrow> int \<times> cell list" where
  "slideLine line sz =
     (case merge_loop sz 0 0 (compact_line line sz) of
        (reward, line1) \<Rightarrow> (reward, compact_line line1 sz))"

subsection \<open>move\<close>

text \<open>
  Directions are the numbers 0 = up, 1 = right, 2 = down, 3 = left. The \<open>switch\<close> has no
  default branch: another number reads and writes nothing.
\<close>

definition read_line :: "nat \<Rightarrow> board \<Rightarrow> nat \<Rightarrow> nat \<Rightarrow> cell list \<Rightarrow> cell list" where
  "read_line sz board dir k line =
     fold (\<lambda>i l.
        if dir = 0 then l[i := board ! (i * sz + k)]
        else if dir = 1 then l[i := board ! (k * sz + (sz - 1 - i))]
        else if dir = 2 then l[i := board ! ((sz - 1 - i) * sz + k)]
        else if dir = 3 then l[i := board ! (k * sz + i)]
        else l) [0..<sz] line"

definition write_line :: "nat \<Rightarrow> board \<Rightarrow> nat \<Rightarrow> nat \<Rightarrow> cell list \<Rightarrow> board" where
  "write_line sz board dir k line =
     fold (\<lambda>i b.
        if dir = 0 then b[i * sz + k := line ! i]
        else if dir = 1 then b[k * sz + (sz - 1 - i) := line ! i]
        else if dir = 2 then b[(sz - 1 - i) * sz + k := line ! i]
        else if dir = 3 then b[k * sz + i := line ! i]
        else b) [0..<sz] board"

record move_result =
  moved :: bool
  reward :: int

record move_state =
  ms_board :: board
  ms_line :: "cell list"
  ms_result :: move_result

definition move_step :: "nat \<Rightarrow> nat \<Rightarrow> nat \<Rightarrow> move_state \<Rightarrow> move_state" where
  "move_step sz dir k s =
     (let orig = read_line sz (ms_board s) dir k (ms_line s) in
      case slideLine orig sz of
        (r, line) \<Rightarrow>
          \<lparr> ms_board = write_line sz (ms_board s) dir k line,
            ms_line = line,
            ms_result =
              \<lparr> moved = (moved (ms_result s) \<or> list_ex (\<lambda>i. line ! i \<noteq> orig ! i) [0..<sz]),
                reward = reward (ms_result s) + r \<rparr> \<rparr>)"

text \<open>\<open>move\<close> mutates the board in place: the model returns the new board with the result.\<close>

definition move :: "nat \<Rightarrow> board \<Rightarrow> nat \<Rightarrow> board \<times> move_result" where
  "move sz board dir =
     (let s = fold (move_step sz dir) [0..<sz]
                \<lparr> ms_board = board, ms_line = replicate sz 0,
                  ms_result = \<lparr> moved = False, reward = 0 \<rparr> \<rparr>
      in (ms_board s, ms_result s))"

subsection \<open>canMove\<close>

definition canMove :: "nat \<Rightarrow> board \<Rightarrow> bool" where
  "canMove sz board =
     (if list_ex (\<lambda>i. board ! i = 0) [0..<TOTAL sz] then True
      else list_ex (\<lambda>r. list_ex (\<lambda>c.
             (c < sz - 1 \<and> board ! (r * sz + c) = board ! (r * sz + c + 1)) \<or>
             (r < sz - 1 \<and> board ! (r * sz + c) = board ! ((r + 1) * sz + c)))
           [0..<sz]) [0..<sz])"

text \<open>The rule of the specification, in its own words.\<close>

definition has_empty_cell :: "nat \<Rightarrow> board \<Rightarrow> bool" where
  "has_empty_cell sz board = (\<exists>i < TOTAL sz. board ! i = 0)"

definition has_equal_neighbours :: "nat \<Rightarrow> board \<Rightarrow> bool" where
  "has_equal_neighbours sz board =
     ((\<exists>r c. r < sz \<and> c + 1 < sz \<and> board ! (r * sz + c) \<noteq> 0 \<and>
          board ! (r * sz + c) = board ! (r * sz + (c + 1))) \<or>
      (\<exists>r c. r + 1 < sz \<and> c < sz \<and> board ! (r * sz + c) \<noteq> 0 \<and>
          board ! (r * sz + c) = board ! ((r + 1) * sz + c)))"

subsection \<open>Slide and merge, as the specification words them\<close>

text \<open>
  The line \<open>k\<close> of a move in direction \<open>dir\<close> is the row or column read from the edge the
  tiles slide towards; \<open>tiles\<close> are its non-empty cells in that order. Merging goes once
  from the front: a tile merges with its successor when the codes are equal, and a merged
  tile does not merge again. \<open>created_tiles\<close> lists the codes the merges create,
  \<open>merge_tiles\<close> the line after them. \<open>merge_pass\<close> is the same pass on a line that still
  holds its empty cells, as the loop of the source sees it.
\<close>

definition tiles :: "cell list \<Rightarrow> cell list" where
  "tiles line = filter (\<lambda>c. c \<noteq> 0) line"

definition pad :: "nat \<Rightarrow> cell list \<Rightarrow> cell list" where
  "pad sz xs = xs @ replicate (sz - length xs) 0"

fun merge_pass :: "cell list \<Rightarrow> int \<times> cell list" where
  "merge_pass (x # y # xs) =
     (if x \<noteq> 0 \<and> x = y then
        (case merge_pass xs of (r, zs) \<Rightarrow> (js_shl1 (x + 1) + r, (x + 1) # 0 # zs))
      else (case merge_pass (y # xs) of (r, zs) \<Rightarrow> (r, x # zs)))"
| "merge_pass xs = (0, xs)"

fun merge_tiles :: "cell list \<Rightarrow> cell list" where
  "merge_tiles (x # y # xs) =
     (if x = y then (x + 1) # merge_tiles xs else x # merge_tiles (y # xs))"
| "merge_tiles xs = xs"

fun created_tiles :: "cell list \<Rightarrow> cell list" where
  "created_tiles (x # y # xs) =
     (if x = y then (x + 1) # created_tiles xs else created_tiles (y # xs))"
| "created_tiles xs = []"

definition line_index :: "nat \<Rightarrow> nat \<Rightarrow> nat \<Rightarrow> nat \<Rightarrow> nat" where
  "line_index sz dir k i =
     (if dir = 0 then i * sz + k
      else if dir = 1 then k * sz + (sz - 1 - i)
      else if dir = 2 then (sz - 1 - i) * sz + k
      else k * sz + i)"

definition line_of :: "nat \<Rightarrow> board \<Rightarrow> nat \<Rightarrow> nat \<Rightarrow> cell list" where
  "line_of sz board dir k = map (\<lambda>i. board ! line_index sz dir k i) [0..<sz]"

definition move_inv :: "nat \<Rightarrow> board \<Rightarrow> nat \<Rightarrow> nat \<Rightarrow> move_state \<Rightarrow> bool" where
  "move_inv sz board dir m s \<longleftrightarrow>
     length (ms_board s) = TOTAL sz \<and> length (ms_line s) = sz \<and>
     (\<forall>k < sz. \<forall>i < sz. ms_board s ! line_index sz dir k i =
        (if k < m then snd (slideLine (line_of sz board dir k) sz) ! i
         else board ! line_index sz dir k i)) \<and>
     reward (ms_result s) = (\<Sum>k\<leftarrow>[0..<m]. fst (slideLine (line_of sz board dir k) sz)) \<and>
     moved (ms_result s) =
       (\<exists>k < m. snd (slideLine (line_of sz board dir k) sz) \<noteq> line_of sz board dir k)"

definition cell_value :: "cell \<Rightarrow> nat" where
  "cell_value c = (if c = 0 then 0 else 2 ^ unat c)"

definition board_value :: "board \<Rightarrow> nat" where
  "board_value board = sum_list (map cell_value board)"

section \<open>Pattern and symmetry catalog (src/network/patterns4x4.js, symmetry4x4.js)\<close>

definition SIZE :: nat where
  "SIZE = 4"

definition idx :: "nat \<Rightarrow> nat \<Rightarrow> nat" where
  "idx r c = r * SIZE + c"

definition rect_2x3 :: "nat list" where
  "rect_2x3 = [idx 0 0, idx 0 1, idx 0 2, idx 1 0, idx 1 1, idx 1 2]"

definition rect_3x2 :: "nat list" where
  "rect_3x2 = [idx 0 0, idx 0 1, idx 1 0, idx 1 1, idx 2 0, idx 2 1]"

definition corner_L :: "nat list" where
  "corner_L = [idx 0 0, idx 0 1, idx 0 2, idx 1 0, idx 1 1, idx 2 0]"

definition line4_h :: "nat list" where
  "line4_h = [idx 0 0, idx 0 1, idx 0 2, idx 0 3]"

definition sq2x2 :: "nat list" where
  "sq2x2 = [idx 0 0, idx 0 1, idx 1 0, idx 1 1]"

definition stair4 :: "nat list" where
  "stair4 = [idx 0 0, idx 0 1, idx 1 1, idx 1 2]"

definition lshape4 :: "nat list" where
  "lshape4 = [idx 0 0, idx 1 0, idx 2 0, idx 2 1]"

definition BASE_PATTERNS :: "nat list list" where
  "BASE_PATTERNS = [rect_2x3, rect_3x2, corner_L, line4_h, sq2x2, stair4, lshape4]"

definition NUM_VALUES :: nat where
  "NUM_VALUES = 16"

definition lutSize :: "nat \<Rightarrow> nat" where
  "lutSize tupleLength = NUM_VALUES ^ tupleLength"

text \<open>
  \<open>buildMap\<close> fills an \<open>Int32Array(SIZE * SIZE)\<close>: the cell \<open>(r, c)\<close> is sent to the cell
  that \<open>transformFn\<close> returns.
\<close>

definition buildMap :: "(nat \<Rightarrow> nat \<Rightarrow> nat \<times> nat) \<Rightarrow> nat list" where
  "buildMap transformFn =
     fold (\<lambda>r m. fold (\<lambda>c m. case transformFn r c of (nr, nc) \<Rightarrow> m[r * SIZE + c := nr * SIZE + nc])
                    [0..<SIZE] m)
          [0..<SIZE] (replicate (SIZE * SIZE) 0)"

definition identity :: "nat list" where
  "identity = buildMap (\<lambda>r c. (r, c))"

definition rot90 :: "nat list" where
  "rot90 = buildMap (\<lambda>r c. (c, SIZE - 1 - r))"

definition rot180 :: "nat list" where
  "rot180 = buildMap (\<lambda>r c. (SIZE - 1 - r, SIZE - 1 - c))"

definition rot270 :: "nat list" where
  "rot270 = buildMap (\<lambda>r c. (SIZE - 1 - c, r))"

definition flipH :: "nat list" where
  "flipH = buildMap (\<lambda>r c. (r, SIZE - 1 - c))"

definition flipH_rot90 :: "nat list" where
  "flipH_rot90 = buildMap (\<lambda>r c. let r1 = r; c1 = SIZE - 1 - c in (c1, SIZE - 1 - r1))"

definition flipH_rot180 :: "nat list" where
  "flipH_rot180 = buildMap (\<lambda>r c. let r1 = r; c1 = SIZE - 1 - c in (SIZE - 1 - r1, SIZE - 1 - c1))"

definition flipH_rot270 :: "nat list" where
  "flipH_rot270 = buildMap (\<lambda>r c. let r1 = r; c1 = SIZE - 1 - c in (SIZE - 1 - c1, r1))"

definition SYMMETRY_MAPS :: "nat list list" where
  "SYMMETRY_MAPS =
     [identity, rot90, rot180, rot270, flipH, flipH_rot90, flipH_rot180, flipH_rot270]"

text \<open>
  A pattern is a list of cell indices, so \<open>symMap[idx]\<close> reads inside the map (the
  theorems below carry this as the hypothesis that the indices are below 16).
\<close>

definition applySymmetry :: "nat list \<Rightarrow> nat list \<Rightarrow> nat list" where
  "applySymmetry pattern symMap = map (\<lambda>i. symMap ! i) pattern"

text \<open>\<open>transformed.join(',')\<close>: the decimal numerals of the indices, separated by commas.\<close>

definition digit_char :: "nat \<Rightarrow> char" where
  "digit_char d = char_of (48 + d)"

function number_string :: "nat \<Rightarrow> string" where
  "number_string n =
     (if n < 10 then [digit_char n] else number_string (n div 10) @ [digit_char (n mod 10)])"
  by pat_completeness auto
termination
  by (relation "measure id") auto

declare number_string.simps [simp del]

fun join_comma :: "string list \<Rightarrow> string" where
  "join_comma [] = []"
| "join_comma [x] = x"
| "join_comma (x # y # ys) = x @ CHR '','' # join_comma (y # ys)"

definition symmetry_step ::
  "nat list \<Rightarrow> nat list \<Rightarrow> string set \<times> nat list list \<Rightarrow> string set \<times> nat list list" where
  "symmetry_step pattern symMap st =
     (case st of (seen, variants) \<Rightarrow>
        let transformed = applySymmetry pattern symMap;
            key = join_comma (map number_string transformed)
        in if key \<notin> seen then (insert key seen, variants @ [transformed])
           else (seen, variants))"

definition allSymmetries :: "nat list \<Rightarrow> nat list list" where
  "allSymmetries pattern = snd (fold (symmetry_step pattern) SYMMETRY_MAPS ({}, []))"

text \<open>
  The rule of the specification: of the transformed tuples, in transform order, only
  the first occurrence of each distinct tuple is kept.
\<close>

fun keep_first :: "'a list \<Rightarrow> 'a list" where
  "keep_first [] = []"
| "keep_first (x # xs) = x # keep_first (filter (\<lambda>y. y \<noteq> x) xs)"

section \<open>N-tuple network (src/network/ntuple4x4.js)\<close>

text \<open>
  A lookup table is a \<open>Float32Array\<close>: its cells are 32-bit patterns. The number in a cell
  is a finite real, \<open>Infinity\<close>, \<open>-Infinity\<close> or \<open>NaN\<close>. What the JavaScript runtime does
  with cells and numbers is a parameter of the model: reading a cell as a number,
  storing a number into a cell (which rounds to single precision), and the arithmetic
  on finite numbers (which rounds to double precision). \<open>number_add\<close> is \<open>+\<close> on all
  numbers: \<open>NaN\<close> and the infinities absorb, and \<open>Infinity + -Infinity\<close> is \<open>NaN\<close>.
  A write past the end of a typed array does nothing, as \<open>xs[i := v]\<close> does; a read
  past the end does not occur on boards with codes 0..15 (\<open>index_within_table\<close> below), and
  statements about \<open>evaluate\<close> are made for such boards.
\<close>

datatype number = Finite real | PosInfinity | NegInfinity | NaN

record float_ops =
  f32_read :: "32 word \<Rightarrow> number"
  f32_write :: "number \<Rightarrow> 32 word"
  num_add :: "real \<Rightarrow> real \<Rightarrow> real"
  num_mul :: "real \<Rightarrow> real \<Rightarrow> real"
  num_div :: "real \<Rightarrow> real \<Rightarrow> real"

fun number_add :: "float_ops \<Rightarrow> number \<Rightarrow> number \<Rightarrow> number" where
  "number_add ops (Finite a) (Finite b) = Finite (num_add ops a b)"
| "number_add ops NaN y = NaN"
| "number_add ops x NaN = NaN"
| "number_add ops PosInfinity NegInfinity = NaN"
| "number_add ops NegInfinity PosInfinity = NaN"
| "number_add ops PosInfinity y = PosInfinity"
| "number_add ops x PosInfinity = PosInfinity"
| "number_add ops NegInfinity y = NegInfinity"
| "number_add ops x NegInfinity = NegInfinity"

record pattern_entry =
  tupleLen :: nat
  variants :: "nat list list"
  lut :: "32 word list"

record NTupleNetwork =
  patterns :: "pattern_entry list"
  totalLUTs :: nat
  totalVariants :: nat

definition new_pattern :: "nat list \<Rightarrow> pattern_entry" where
  "new_pattern basePattern =
     \<lparr> tupleLen = length basePattern,
       variants = allSymmetries basePattern,
       lut = replicate (lutSize (length basePattern)) 0 \<rparr>"

definition new_NTupleNetwork :: NTupleNetwork where
  "new_NTupleNetwork =
     (let ps = map new_pattern BASE_PATTERNS in
      \<lparr> patterns = ps,
        totalLUTs = length ps,
        totalVariants = fold (\<lambda>p s. s + length (variants p)) ps 0 \<rparr>)"

definition index_of :: "board \<Rightarrow> nat list \<Rightarrow> nat" where
  "index_of board pattern =
     fold (\<lambda>i idx. idx * NUM_VALUES + unat (board ! (pattern ! i))) [0..<length pattern] 0"

definition evaluate :: "float_ops \<Rightarrow> NTupleNetwork \<Rightarrow> board \<Rightarrow> number" where
  "evaluate ops net board =
     fold (\<lambda>p value.
             fold (\<lambda>variant value.
                     number_add ops value (f32_read ops (lut p ! index_of board variant)))
                  (variants p) value)
          (patterns net) (Finite 0)"

definition update_pattern :: "float_ops \<Rightarrow> board \<Rightarrow> number \<Rightarrow> pattern_entry \<Rightarrow> pattern_entry" where
  "update_pattern ops board delta p =
     p\<lparr> lut :=
          fold (\<lambda>variant l.
                  l[index_of board variant :=
                      f32_write ops (number_add ops (f32_read ops (l ! index_of board variant)) delta)])
               (variants p) (lut p) \<rparr>"

definition update :: "float_ops \<Rightarrow> NTupleNetwork \<Rightarrow> board \<Rightarrow> number \<Rightarrow> NTupleNetwork" where
  "update ops net board delta =
     net\<lparr> patterns := map (update_pattern ops board delta) (patterns net) \<rparr>"

definition same_catalog :: "NTupleNetwork \<Rightarrow> bool" where
  "same_catalog net \<longleftrightarrow>
     map (\<lambda>p. (tupleLen p, variants p, length (lut p))) (patterns net) =
     map (\<lambda>b. (length b, allSymmetries b, lutSize (length b))) BASE_PATTERNS"

definition tuple_key :: "nat list \<Rightarrow> string" where
  "tuple_key t = join_comma (map number_string t)"

section \<open>Move selection (players and the learning loop)\<close>

text \<open>
  The players and the learning loop exist once per board size with the same text; they
  call \<open>move\<close> of their engine (\<open>sz\<close>) and \<open>evaluate\<close> of the network they were given,
  which is the parameter \<open>network_evaluate\<close>. A number is a finite real or the initial
  \<open>-Infinity\<close> of \<open>bestValue\<close>.
\<close>

datatype jsnum = NegInf | Fin real

fun js_gt :: "jsnum \<Rightarrow> jsnum \<Rightarrow> bool" where
  "js_gt NegInf y = False"
| "js_gt (Fin a) NegInf = True"
| "js_gt (Fin a) (Fin b) = (b < a)"

fun js_add :: "float_ops \<Rightarrow> jsnum \<Rightarrow> jsnum \<Rightarrow> jsnum" where
  "js_add ops (Fin a) (Fin b) = Fin (num_add ops a b)"
| "js_add ops x y = NegInf"

fun js_mul :: "float_ops \<Rightarrow> real \<Rightarrow> jsnum \<Rightarrow> jsnum" where
  "js_mul ops c (Fin b) = Fin (num_mul ops c b)"
| "js_mul ops c NegInf = NegInf"

fun js_div :: "float_ops \<Rightarrow> jsnum \<Rightarrow> real \<Rightarrow> jsnum" where
  "js_div ops (Fin a) n = Fin (num_div ops a n)"
| "js_div ops NegInf n = NegInf"

definition cloneBoard :: "board \<Rightarrow> board" where
  "cloneBoard board = board"




text \<open>
  The expectimax player (\<open>selectMove\<close>, \<open>_chanceNode\<close>, \<open>_playerNode\<close>, \<open>sampleCells\<close>).
  \<open>Math.random\<close> is the sequence \<open>random\<close>; the number of calls made so far is threaded
  through the search. The literals \<open>0.9\<close> and \<open>0.1\<close> are the binary64 numbers nearest to
  9/10 and 1/10. \<open>_chanceNode\<close> at a depth above 0 calls \<open>_playerNode\<close> at the same
  depth, which calls \<open>_chanceNode\<close> one level deeper: \<open>chanceNode_at\<close> is this recursion
  on the number of levels left.
\<close>

definition literal_0_9 :: real where
  "literal_0_9 = 8106479329266893 / 2 ^ 53"

definition literal_0_1 :: real where
  "literal_0_1 = 3602879701896397 / 2 ^ 55"

function shuffle_loop ::
  "float_ops \<Rightarrow> (nat \<Rightarrow> real) \<Rightarrow> nat \<Rightarrow> nat \<Rightarrow> nat list \<Rightarrow> nat \<Rightarrow> nat list \<times> nat" where
  "shuffle_loop ops random n i sampled calls =
     (if 0 < i \<and> n < length sampled then
        (let j = nat \<lfloor>num_mul ops (random calls) (real (i + 1))\<rfloor>
         in shuffle_loop ops random n (i - 1) (sampled[i := sampled ! j, j := sampled ! i])
              (calls + 1))
      else (sampled, calls))"
  by pat_completeness auto
termination
  by (relation "measure (\<lambda>(ops, random, n, i, sampled, calls). i)") auto

declare shuffle_loop.simps [simp del]

definition sampleCells ::
  "float_ops \<Rightarrow> (nat \<Rightarrow> real) \<Rightarrow> nat list \<Rightarrow> nat \<Rightarrow> nat \<Rightarrow> nat list \<times> nat" where
  "sampleCells ops random cells n calls =
     (case shuffle_loop ops random n (length cells - 1) cells calls of
        (sampled, calls1) \<Rightarrow> (take n sampled, calls1))"

record player_state =
  ps_bestValue :: jsnum
  ps_anyMoved :: bool
  ps_calls :: nat

definition playerNode_body ::
  "float_ops \<Rightarrow> nat \<Rightarrow> (board \<Rightarrow> real) \<Rightarrow> (board \<Rightarrow> nat \<Rightarrow> jsnum \<times> nat) \<Rightarrow>
   board \<Rightarrow> nat \<Rightarrow> jsnum \<times> nat" where
  "playerNode_body ops sz network_evaluate chance board calls =
     (let st = fold (\<lambda>dir st.
                 case move sz (cloneBoard board) dir of
                   (after, result) \<Rightarrow>
                     if \<not> moved result then st
                     else
                       (case chance after (ps_calls st) of
                          (c, calls1) \<Rightarrow>
                            let value = js_add ops (Fin (of_int (reward result))) c
                            in \<lparr> ps_bestValue =
                                   (if js_gt value (ps_bestValue st) then value else ps_bestValue st),
                                 ps_anyMoved = True, ps_calls = calls1 \<rparr>))
               [0..<4] \<lparr> ps_bestValue = NegInf, ps_anyMoved = False, ps_calls = calls \<rparr>
      in (if ps_anyMoved st then ps_bestValue st else Fin (network_evaluate board), ps_calls st))"

definition chanceNode_body ::
  "float_ops \<Rightarrow> nat \<Rightarrow> (board \<Rightarrow> real) \<Rightarrow> (nat \<Rightarrow> real) \<Rightarrow>
   (board \<Rightarrow> nat \<Rightarrow> jsnum \<times> nat) \<Rightarrow> board \<Rightarrow> nat \<Rightarrow> jsnum \<times> nat" where
  "chanceNode_body ops sz network_evaluate random player board calls =
     (let empty = filter (\<lambda>i. board ! i = 0) [0..<TOTAL sz] in
      if length empty = 0 then (Fin (network_evaluate board), calls)
      else
        (case (if length empty \<le> 8 then (empty, calls) else sampleCells ops random empty 8 calls) of
           (cells, calls1) \<Rightarrow>
             (case fold (\<lambda>i (total', c).
                      case player (board[i := 1]) c of
                        (p1, c1) \<Rightarrow>
                          (case player (board[i := 2]) c1 of
                             (p2, c2) \<Rightarrow>
                               (js_add ops (js_add ops total' (js_mul ops literal_0_9 p1))
                                  (js_mul ops literal_0_1 p2), c2)))
                    cells (Fin 0, calls1) of
                (total', calls2) \<Rightarrow> (js_div ops total' (real (length cells)), calls2))))"

primrec chanceNode_at ::
  "float_ops \<Rightarrow> nat \<Rightarrow> (board \<Rightarrow> real) \<Rightarrow> (nat \<Rightarrow> real) \<Rightarrow> nat \<Rightarrow>
   board \<Rightarrow> nat \<Rightarrow> jsnum \<times> nat" where
  "chanceNode_at ops sz network_evaluate random 0 = (\<lambda>board calls. (Fin (network_evaluate board), calls))"
| "chanceNode_at ops sz network_evaluate random (Suc d) =
     chanceNode_body ops sz network_evaluate random
       (playerNode_body ops sz network_evaluate (chanceNode_at ops sz network_evaluate random d))"

definition chanceNode ::
  "float_ops \<Rightarrow> nat \<Rightarrow> (board \<Rightarrow> real) \<Rightarrow> (nat \<Rightarrow> real) \<Rightarrow> board \<Rightarrow> int \<Rightarrow> nat \<Rightarrow> jsnum \<times> nat" where
  "chanceNode ops sz network_evaluate random board depth calls =
     (if depth \<le> 0 then (Fin (network_evaluate board), calls)
      else chanceNode_at ops sz network_evaluate random (nat depth) board calls)"

definition playerNode ::
  "float_ops \<Rightarrow> nat \<Rightarrow> (board \<Rightarrow> real) \<Rightarrow> (nat \<Rightarrow> real) \<Rightarrow> board \<Rightarrow> int \<Rightarrow> nat \<Rightarrow> jsnum \<times> nat" where
  "playerNode ops sz network_evaluate random board depth calls =
     playerNode_body ops sz network_evaluate
       (\<lambda>after. chanceNode ops sz network_evaluate random after (depth - 1)) board calls"










section \<open>Weight files (save, saveBinary, load, loadBinary)\<close>

text \<open>
  The binary file is a list of bytes. \<open>DataView.setInt32\<close> and \<open>getInt32\<close> are called with
  \<open>littleEndian = true\<close>; the memory of a \<open>Float32Array\<close> is read and written as the same
  little-endian bytes. \<open>getInt32\<close> outside the file throws a \<open>RangeError\<close>. The
  \<open>Float32Array\<close> view of a table is taken on the \<open>ArrayBuffer\<close> under the file's \<open>Buffer\<close>;
  the model takes the file to fill that \<open>ArrayBuffer\<close> from offset 0, as node allocates it
  for a file of 4 KB or more (every file of the layout for this network is larger), so
  that a view reaching past the end of the file throws a \<open>RangeError\<close> too. The loaders
  change the tables in place, so the model returns the network as it stands when the
  call ends, with the error if one was thrown.
\<close>

type_synonym byte = "8 word"

definition le32 :: "32 word \<Rightarrow> byte list" where
  "le32 w = [ucast w, ucast (drop_bit 8 w), ucast (drop_bit 16 w), ucast (drop_bit 24 w)]"

definition from_le32 :: "byte list \<Rightarrow> 32 word" where
  "from_le32 bs =
     ucast (bs ! 0) OR push_bit 8 (ucast (bs ! 1)) OR push_bit 16 (ucast (bs ! 2)) OR
     push_bit 24 (ucast (bs ! 3))"

datatype load_error = PatternCountMismatch | LutSizeMismatch nat | RangeError | TypeError

definition setInt32 :: "byte list \<Rightarrow> nat \<Rightarrow> int \<Rightarrow> byte list" where
  "setInt32 buffer offset v = take offset buffer @ le32 (word_of_int v) @ drop (offset + 4) buffer"

definition set_bytes :: "byte list \<Rightarrow> nat \<Rightarrow> byte list \<Rightarrow> byte list" where
  "set_bytes buffer offset src = take offset buffer @ src @ drop (offset + length src) buffer"

definition lut_bytes :: "32 word list \<Rightarrow> byte list" where
  "lut_bytes l = concat (map le32 l)"

definition saveBinary_pattern :: "pattern_entry \<Rightarrow> byte list \<times> nat \<Rightarrow> byte list \<times> nat" where
  "saveBinary_pattern p st =
     (case st of (buffer, offset) \<Rightarrow>
        let buffer1 = setInt32 buffer offset (int (tupleLen p));
            buffer2 = setInt32 buffer1 (offset + 4) (int (length (lut p)));
            src = lut_bytes (lut p);
            buffer3 = set_bytes buffer2 (offset + 8) src
        in (buffer3, offset + 8 + length src))"

definition saveBinary :: "NTupleNetwork \<Rightarrow> byte list" where
  "saveBinary net =
     (let totalSize = fold (\<lambda>p t. t + (8 + length (lut p) * 4)) (patterns net) 8;
          buffer = replicate totalSize 0;
          buffer1 = setInt32 buffer 0 1;
          buffer2 = setInt32 buffer1 4 (int (length (patterns net)))
      in fst (fold saveBinary_pattern (patterns net) (buffer2, 8)))"

definition getInt32 :: "byte list \<Rightarrow> nat \<Rightarrow> load_error + int" where
  "getInt32 buf offset =
     (if offset + 4 \<le> length buf then Inr (sint (from_le32 (take 4 (drop offset buf))))
      else Inl RangeError)"

definition float32_view :: "byte list \<Rightarrow> nat \<Rightarrow> nat \<Rightarrow> load_error + 32 word list" where
  "float32_view buf offset n =
     (if offset + 4 * n \<le> length buf
      then Inr (map (\<lambda>k. from_le32 (take 4 (drop (offset + 4 * k) buf))) [0..<n])
      else Inl RangeError)"

function loadBinary_loop ::
  "byte list \<Rightarrow> nat \<Rightarrow> nat \<Rightarrow> nat \<Rightarrow> pattern_entry list \<Rightarrow> load_error option \<times> pattern_entry list" where
  "loadBinary_loop buf numPatterns i offset ps =
     (if i < numPatterns then
        (case getInt32 buf offset of
           Inl e \<Rightarrow> (Some e, ps)
         | Inr tupleLen' \<Rightarrow>
             (case getInt32 buf (offset + 4) of
                Inl e \<Rightarrow> (Some e, ps)
              | Inr lutLen \<Rightarrow>
                  if lutLen \<noteq> int (length (lut (ps ! i))) then (Some (LutSizeMismatch i), ps)
                  else
                    (case float32_view buf (offset + 8) (nat lutLen) of
                       Inl e \<Rightarrow> (Some e, ps)
                     | Inr src \<Rightarrow>
                         loadBinary_loop buf numPatterns (i + 1) (offset + 8 + nat lutLen * 4)
                           (ps[i := (ps ! i)\<lparr> lut := src \<rparr>]))))
      else (None, ps))"
  by pat_completeness auto
termination
  by (relation "measure (\<lambda>(buf, numPatterns, i, offset, ps). numPatterns - i)") auto

declare loadBinary_loop.simps [simp del]

definition loadBinary :: "NTupleNetwork \<Rightarrow> byte list \<Rightarrow> load_error option \<times> NTupleNetwork" where
  "loadBinary net buf =
     (case getInt32 buf 0 of
        Inl e \<Rightarrow> (Some e, net)
      | Inr version \<Rightarrow>
          (case getInt32 buf 4 of
             Inl e \<Rightarrow> (Some e, net)
           | Inr numPatterns \<Rightarrow>
               if numPatterns \<noteq> int (length (patterns net)) then (Some PatternCountMismatch, net)
               else
                 (case loadBinary_loop buf (nat numPatterns) 0 8 (patterns net) of
                    (r, ps) \<Rightarrow> (r, net\<lparr> patterns := ps \<rparr>))))"

text \<open>
  The text form: \<open>save\<close> writes \<open>JSON.stringify(data)\<close> and \<open>load\<close> reads it back with
  \<open>JSON.parse\<close>. A finite number comes back as the same number; \<open>Infinity\<close>, \<open>-Infinity\<close>
  and \<open>NaN\<close> are written as \<open>null\<close> (\<open>json_number\<close>). The model passes the parsed data: an
  entry of a \<open>lut\<close> array is a number or \<open>null\<close> (\<open>None\<close>).
  \<open>lut.set(saved.lut)\<close> converts each entry to a number (\<open>to_number\<close>: \<open>null\<close> is 0) and
  stores them from index 0; it throws a \<open>RangeError\<close> when the array is longer than the
  table; \<open>data.patterns[i]\<close> past the end is \<open>undefined\<close>, and reading its \<open>lutSize\<close>
  throws a \<open>TypeError\<close>.
\<close>

definition json_number :: "number \<Rightarrow> real option" where
  "json_number n = (case n of Finite r \<Rightarrow> Some r | PosInfinity \<Rightarrow> None | NegInfinity \<Rightarrow> None | NaN \<Rightarrow> None)"

definition to_number :: "real option \<Rightarrow> number" where
  "to_number x = (case x of Some r \<Rightarrow> Finite r | None \<Rightarrow> Finite 0)"

record saved_pattern =
  sp_tupleLen :: int
  sp_numVariants :: int
  sp_lutSize :: int
  sp_lut :: "real option list"

record weight_data =
  wd_version :: int
  wd_boardSize :: int
  wd_numPatterns :: int
  wd_patterns :: "saved_pattern list"

definition save :: "float_ops \<Rightarrow> NTupleNetwork \<Rightarrow> weight_data" where
  "save ops net =
     \<lparr> wd_version = 1, wd_boardSize = 4, wd_numPatterns = int (length (patterns net)),
       wd_patterns = map (\<lambda>p. \<lparr> sp_tupleLen = int (tupleLen p),
                                  sp_numVariants = int (length (variants p)),
                                  sp_lutSize = int (length (lut p)),
                                  sp_lut = map (\<lambda>w. json_number (f32_read ops w)) (lut p) \<rparr>)
                         (patterns net) \<rparr>"

definition typed_array_set ::
  "float_ops \<Rightarrow> 32 word list \<Rightarrow> real option list \<Rightarrow> load_error + 32 word list" where
  "typed_array_set ops l src =
     (if length l < length src then Inl RangeError
      else Inr (map (\<lambda>x. f32_write ops (to_number x)) src @ drop (length src) l))"

function load_loop ::
  "float_ops \<Rightarrow> weight_data \<Rightarrow> nat \<Rightarrow> pattern_entry list \<Rightarrow> load_error option \<times> pattern_entry list" where
  "load_loop ops data i ps =
     (if i < length ps then
        (if length (wd_patterns data) \<le> i then (Some TypeError, ps)
         else
           (let saved = wd_patterns data ! i in
            if sp_lutSize saved \<noteq> int (length (lut (ps ! i))) then (Some (LutSizeMismatch i), ps)
            else
              (case typed_array_set ops (lut (ps ! i)) (sp_lut saved) of
                 Inl e \<Rightarrow> (Some e, ps)
               | Inr l \<Rightarrow> load_loop ops data (i + 1) (ps[i := (ps ! i)\<lparr> lut := l \<rparr>]))))
      else (None, ps))"
  by pat_completeness auto
termination
  by (relation "measure (\<lambda>(ops, data, i, ps). length ps - i)") auto

declare load_loop.simps [simp del]

definition load :: "float_ops \<Rightarrow> NTupleNetwork \<Rightarrow> weight_data \<Rightarrow> load_error option \<times> NTupleNetwork" where
  "load ops net data =
     (if wd_numPatterns data \<noteq> int (length (patterns net)) then (Some PatternCountMismatch, net)
      else (case load_loop ops data 0 (patterns net) of
              (r, ps) \<Rightarrow> (r, net\<lparr> patterns := ps \<rparr>)))"

text \<open>
  The layout of the specification: \<open>[format_version][pattern_count]\<close>, then per pattern
  \<open>[tuple_length][lut_length][lut_length x 4 bytes]\<close>. \<open>first_mismatch\<close> is the first
  pattern whose table length in the file differs from the network's; \<open>with_luts\<close> puts
  tables into patterns. \<open>apply_tables\<close> and \<open>apply_saved\<close> are the loops of the loaders as
  recursions over the patterns.
\<close>

definition binary_pattern :: "int \<times> 32 word list \<Rightarrow> byte list" where
  "binary_pattern tb =
     le32 (word_of_int (fst tb)) @ le32 (word_of_int (int (length (snd tb)))) @ lut_bytes (snd tb)"

definition binary_file :: "int \<Rightarrow> (int \<times> 32 word list) list \<Rightarrow> byte list" where
  "binary_file version tables =
     le32 (word_of_int version) @ le32 (word_of_int (int (length tables))) @
     concat (map binary_pattern tables)"

definition tables_of :: "NTupleNetwork \<Rightarrow> (int \<times> 32 word list) list" where
  "tables_of net = map (\<lambda>p. (int (tupleLen p), lut p)) (patterns net)"

fun first_mismatch :: "nat list \<Rightarrow> nat list \<Rightarrow> nat option" where
  "first_mismatch (x # xs) (y # ys) =
     (if x \<noteq> y then Some 0 else map_option Suc (first_mismatch xs ys))"
| "first_mismatch xs ys = None"

fun apply_tables ::
  "nat \<Rightarrow> pattern_entry list \<Rightarrow> 32 word list list \<Rightarrow> load_error option \<times> pattern_entry list" where
  "apply_tables i (p # ps) (t # ts) =
     (if length t \<noteq> length (lut p) then (Some (LutSizeMismatch i), p # ps)
      else (case apply_tables (Suc i) ps ts of (r, ps') \<Rightarrow> (r, p\<lparr> lut := t \<rparr> # ps')))"
| "apply_tables i (p # ps) [] = (Some RangeError, p # ps)"
| "apply_tables i [] ts = (None, [])"

fun apply_saved ::
  "float_ops \<Rightarrow> nat \<Rightarrow> pattern_entry list \<Rightarrow> saved_pattern list \<Rightarrow>
   load_error option \<times> pattern_entry list" where
  "apply_saved ops i (p # ps) (d # ds) =
     (if sp_lutSize d \<noteq> int (length (lut p)) then (Some (LutSizeMismatch i), p # ps)
      else (case typed_array_set ops (lut p) (sp_lut d) of
              Inl e \<Rightarrow> (Some e, p # ps)
            | Inr l \<Rightarrow> (case apply_saved ops (Suc i) ps ds of (r, ps') \<Rightarrow> (r, p\<lparr> lut := l \<rparr> # ps'))))"
| "apply_saved ops i (p # ps) [] = (Some TypeError, p # ps)"
| "apply_saved ops i [] ds = (None, [])"

definition with_luts :: "pattern_entry list \<Rightarrow> 32 word list list \<Rightarrow> pattern_entry list" where
  "with_luts ps ts = map2 (\<lambda>p t. p\<lparr> lut := t \<rparr>) ps ts"

section \<open>The arithmetic of the runtime: IEEE 754 binary32 and binary64\<close>

text \<open>
  The instance of \<open>float_ops\<close> that JavaScript has: a finite number is a binary64 value,
  so the result of an operation is rounded to 53 bits (to nearest, ties to even); a
  \<open>Float32Array\<close> cell holds the binary32 bit pattern (sign, 8 exponent bits, 23 fraction
  bits). Exponent field 255 is \<open>Infinity\<close> or \<open>-Infinity\<close> (fraction 0) or \<open>NaN\<close>. A store
  rounds to 24 bits, with subnormals below \<open>2 ^ - 126\<close> and the pattern of infinity from
  \<open>2 ^ 128\<close> on; the sign bit is the sign of the number stored. Which \<open>NaN\<close> pattern a
  store writes is left to the implementation; the model writes \<open>0x7FC00000\<close>, and every
  \<open>NaN\<close> pattern reads as \<open>NaN\<close>. A sum beyond the binary64 range stays a real here: the
  only use of such a sum is a store, which writes the pattern of infinity either way.
  \<open>binary_exponent a\<close> is the exponent \<open>e\<close> with \<open>2 ^ e \<le> a < 2 ^ (e + 1)\<close>, found by
  halving or doubling.
\<close>

lemma up_decreases: "2 \<le> (a::real) \<Longrightarrow> \<lfloor>a / 2\<rfloor> < \<lfloor>a\<rfloor>"
proof -
  assume a: "2 \<le> a"
  have "of_int (\<lfloor>a / 2\<rfloor> + 1) = of_int \<lfloor>a / 2\<rfloor> + (1::real)" by simp
  also have "\<dots> \<le> a / 2 + 1" by (simp only: add_le_cancel_right of_int_floor_le)
  also have "\<dots> \<le> a" using a by simp
  finally have "\<lfloor>a / 2\<rfloor> + 1 \<le> \<lfloor>a\<rfloor>" by (simp only: le_floor_iff)
  then show ?thesis by simp
qed

lemma down_decreases: "0 < (a::real) \<and> a < 1 \<Longrightarrow> \<lceil>1 / (a * 2)\<rceil> < \<lceil>1 / a\<rceil>"
proof -
  assume "0 < a \<and> a < 1"
  then have a: "0 < a" "a < 1" by simp_all
  let ?c = "\<lceil>1 / a\<rceil>"
  from a have one: "1 < 1 / a" by simp
  have c: "1 / a \<le> of_int ?c" by (rule le_of_int_ceiling)
  with one have "(1::real) < of_int ?c" by (rule less_le_trans)
  then have c2: "2 \<le> ?c" by simp
  have "1 / (a * 2) = (1 / a) / 2" by simp
  also have "\<dots> \<le> of_int ?c / 2" using c by simp
  also have "\<dots> \<le> of_int ?c - 1"
  proof -
    from c2 have "(2::real) \<le> of_int ?c" by (metis of_int_le_iff of_int_numeral)
    then show ?thesis by simp
  qed
  finally show "\<lceil>1 / (a * 2)\<rceil> < ?c" by (simp only: ceiling_less_iff)
qed

function exponent_up :: "real \<Rightarrow> int" where
  "exponent_up a = (if 2 \<le> a then exponent_up (a / 2) + 1 else 0)"
  by pat_completeness auto
termination
  by (relation "measure (\<lambda>a. nat \<lfloor>a\<rfloor>)") (simp_all add: up_decreases)

function exponent_down :: "real \<Rightarrow> int" where
  "exponent_down a = (if 0 < a \<and> a < 1 then exponent_down (a * 2) - 1 else 0)"
  by pat_completeness auto
termination
  by (relation "measure (\<lambda>a. nat \<lceil>1 / a\<rceil>)") (simp_all add: down_decreases)

declare exponent_up.simps [simp del]

declare exponent_down.simps [simp del]

definition binary_exponent :: "real \<Rightarrow> int" where
  "binary_exponent a = (if 1 \<le> a then exponent_up a else exponent_down a)"

definition round_half_even :: "real \<Rightarrow> int" where
  "round_half_even x =
     (let f = \<lfloor>x\<rfloor>; d = x - of_int f
      in if d < 1 / 2 then f else if 1 / 2 < d then f + 1 else if even f then f else f + 1)"

definition pow2 :: "int \<Rightarrow> real" where
  "pow2 e = (if 0 \<le> e then 2 ^ nat e else 1 / 2 ^ nat (- e))"

definition round_to_precision :: "nat \<Rightarrow> int \<Rightarrow> real \<Rightarrow> real" where
  "round_to_precision p emin x =
     (if x = 0 then 0
      else
        let e = max (binary_exponent \<bar>x\<bar>) emin;
            q = pow2 (e - int p + 1)
        in of_int (round_half_even (x / q)) * q)"

definition float64_round :: "real \<Rightarrow> real" where
  "float64_round x = round_to_precision 53 (- 1022) x"

definition float32_value :: "32 word \<Rightarrow> number" where
  "float32_value w =
     (let e = unat (take_bit 8 (drop_bit 23 w));
          m = unat (take_bit 23 w)
      in if e = 255 then (if m = 0 then (if bit w 31 then NegInfinity else PosInfinity) else NaN)
         else
           let a = (if e = 0 then real m * pow2 (- 149)
                    else real (2 ^ 23 + m) * pow2 (int e - 150))
           in Finite (if bit w 31 then - a else a))"

definition float32_bits :: "real \<Rightarrow> 32 word" where
  "float32_bits x =
     (let r = round_to_precision 24 (- 126) x;
          a = \<bar>r\<bar>;
          sign = (if x < 0 then 2 ^ 31 else 0)
      in if a = 0 then sign
         else if 2 ^ 128 \<le> a then sign + 0x7F800000
         else
           let e = max (binary_exponent a) (- 126)
           in sign + word_of_int ((e + 126) * 2 ^ 23 + \<lfloor>a / pow2 (e - 23)\<rfloor>))"

definition float32_store :: "number \<Rightarrow> 32 word" where
  "float32_store n =
     (case n of Finite x \<Rightarrow> float32_bits x
      | PosInfinity \<Rightarrow> 0x7F800000
      | NegInfinity \<Rightarrow> 0xFF800000
      | NaN \<Rightarrow> 0x7FC00000)"

definition ieee_ops :: float_ops where
  "ieee_ops = \<lparr> f32_read = float32_value, f32_write = float32_store,
                 num_add = (\<lambda>a b. float64_round (a + b)),
                 num_mul = (\<lambda>a b. float64_round (a * b)),
                 num_div = (\<lambda>a b. float64_round (a / b)) \<rparr>"

text \<open>The boards of the game: 16 cells, codes 0..15.\<close>

definition valid_board :: "board \<Rightarrow> bool" where
  "valid_board board \<longleftrightarrow> length board = SIZE * SIZE \<and> list_all (\<lambda>c. unat c \<le> 15) board"

text \<open>
  A file for the constructor's network with the right pattern count, whose first table
  has the right length (every cell is 1.0) and whose other tables are empty; and the
  same in the text form.
\<close>

definition mismatched_tables :: "(int \<times> 32 word list) list" where
  "mismatched_tables =
     [(6, replicate (lutSize 6) 0x3F800000), (6, []), (6, []), (4, []), (4, []), (4, []), (4, [])]"

definition mismatched_data :: weight_data where
  "mismatched_data =
     (let first = \<lparr> sp_tupleLen = 6, sp_numVariants = 8, sp_lutSize = int (lutSize 6),
                     sp_lut = replicate (lutSize 6) (Some 1) \<rparr>;
          other = \<lparr> sp_tupleLen = 4, sp_numVariants = 8, sp_lutSize = 0, sp_lut = [] \<rparr>
      in \<lparr> wd_version = 1, wd_boardSize = 4, wd_numPatterns = 7,
           wd_patterns = [first, other, other, other, other, other, other] \<rparr>)"

text \<open>
  The empty board, on which every variant of every pattern reads slot 0 of its table,
  and the cell assignment \<open>lut[idx] += delta\<close>.
\<close>

definition empty_board :: board where
  "empty_board = replicate (SIZE * SIZE) 0"

definition add_to_cell :: "float_ops \<Rightarrow> number \<Rightarrow> 32 word \<Rightarrow> 32 word" where
  "add_to_cell ops delta w = f32_write ops (number_add ops (f32_read ops w) delta)"

text \<open>
  Two states reached from the constructor's network by one call of \<open>update\<close> on the
  empty board: slot 0 of every table holds 1.0 after \<open>update(board, 0.125)\<close>, and
  \<open>Infinity\<close> after \<open>update(board, 2 ^ 128)\<close>.
\<close>

definition unit_network :: NTupleNetwork where
  "unit_network = update ieee_ops new_NTupleNetwork empty_board (Finite (1 / 8))"

definition overflown_network :: NTupleNetwork where
  "overflown_network = update ieee_ops new_NTupleNetwork empty_board (Finite (2 ^ 128))"

text \<open>
  The cell that \<open>load\<close> stores for a cell that \<open>save\<close> wrote, and the tables in which
  every cell holds a finite number.
\<close>

definition through_text :: "float_ops \<Rightarrow> 32 word \<Rightarrow> 32 word" where
  "through_text ops w = f32_write ops (to_number (json_number (f32_read ops w)))"

fun is_finite :: "number \<Rightarrow> bool" where
  "is_finite (Finite r) = True"
| "is_finite n = False"

definition finite_tables :: "NTupleNetwork \<Rightarrow> bool" where
  "finite_tables net \<longleftrightarrow>
     list_all (\<lambda>p. list_all (\<lambda>w. is_finite (float32_value w)) (lut p)) (patterns net)"

section \<open>Properties of the board engine\<close>

subsection \<open>Terminal-state detection\<close>

lemma cell_in_range: "r < sz \<Longrightarrow> c < sz \<Longrightarrow> r * sz + c < TOTAL sz"
proof -
  assume r: "r < sz" and c: "c < sz"
  have "r * sz + c < r * sz + sz" using c by simp
  also have "\<dots> = Suc r * sz" by simp
  also have "\<dots> \<le> sz * sz" using r by (intro mult_le_mono1) simp
  finally show ?thesis by (simp add: TOTAL_def)
qed

text \<open>
  C6. \<open>canMove\<close> is true exactly when some cell is empty or two horizontally or
  vertically adjacent cells hold the same non-zero code; so it is false on a full board
  without an equal adjacent pair.
\<close>

theorem canMove_iff:
  "length board = TOTAL sz \<Longrightarrow>
   canMove sz board \<longleftrightarrow> has_empty_cell sz board \<or> has_equal_neighbours sz board"
proof (cases "has_empty_cell sz board")
  case True
  then show ?thesis
    by (auto simp: canMove_def has_empty_cell_def list_ex_iff)
next
  case False
  then have full: "\<And>r c. r < sz \<Longrightarrow> c < sz \<Longrightarrow> board ! (r * sz + c) \<noteq> 0"
    using cell_in_range by (auto simp: has_empty_cell_def)
  have "canMove sz board \<longleftrightarrow> has_equal_neighbours sz board"
  proof
    assume "canMove sz board"
    with False obtain r c where rc: "r < sz" "c < sz"
      and adj: "(c < sz - 1 \<and> board ! (r * sz + c) = board ! (r * sz + c + 1)) \<or>
                (r < sz - 1 \<and> board ! (r * sz + c) = board ! ((r + 1) * sz + c))"
      by (auto simp: canMove_def has_empty_cell_def list_ex_iff split: if_splits)
    from adj show "has_equal_neighbours sz board"
    proof
      assume "c < sz - 1 \<and> board ! (r * sz + c) = board ! (r * sz + c + 1)"
      with rc full [of r c]
      have "r < sz \<and> c + 1 < sz \<and> board ! (r * sz + c) \<noteq> 0 \<and>
            board ! (r * sz + c) = board ! (r * sz + (c + 1))"
        by (auto simp: add.assoc)
      then show ?thesis
        unfolding has_equal_neighbours_def by blast
    next
      assume "r < sz - 1 \<and> board ! (r * sz + c) = board ! ((r + 1) * sz + c)"
      with rc full [of r c]
      have "r + 1 < sz \<and> c < sz \<and> board ! (r * sz + c) \<noteq> 0 \<and>
            board ! (r * sz + c) = board ! ((r + 1) * sz + c)"
        by auto
      then show ?thesis
        unfolding has_equal_neighbours_def by blast
    qed
  next
    assume "has_equal_neighbours sz board"
    then consider
      (h) r c where "r < sz" "c + 1 < sz"
          "board ! (r * sz + c) = board ! (r * sz + (c + 1))"
    | (v) r c where "r + 1 < sz" "c < sz"
          "board ! (r * sz + c) = board ! ((r + 1) * sz + c)"
      unfolding has_equal_neighbours_def by blast
    then have "\<exists>r\<in>set [0..<sz]. \<exists>c\<in>set [0..<sz].
        (c < sz - 1 \<and> board ! (r * sz + c) = board ! (r * sz + c + 1)) \<or>
        (r < sz - 1 \<and> board ! (r * sz + c) = board ! ((r + 1) * sz + c))"
    proof cases
      case h
      then have "r \<in> set [0..<sz]" "c \<in> set [0..<sz]"
        "c < sz - 1 \<and> board ! (r * sz + c) = board ! (r * sz + c + 1)"
        by (simp_all add: add.assoc)
      then show ?thesis by blast
    next
      case v
      then have "r \<in> set [0..<sz]" "c \<in> set [0..<sz]"
        "r < sz - 1 \<and> board ! (r * sz + c) = board ! ((r + 1) * sz + c)"
        by simp_all
      then show ?thesis by blast
    qed
    then show "canMove sz board"
      unfolding canMove_def list_ex_iff by simp
  qed
  with False show ?thesis by simp
qed

theorem canMove_iff_witness:
  "\<not> canMove 4 [1,2,1,2, 2,1,2,1, 1,2,1,2, 2,1,2,1] \<and>
   \<not> has_empty_cell 4 [1,2,1,2, 2,1,2,1, 1,2,1,2, 2,1,2,1] \<and>
   \<not> has_equal_neighbours 4 [1,2,1,2, 2,1,2,1, 1,2,1,2, 2,1,2,1]"
proof -
  have len: "length [1,2,1,2, 2,1,2,1, 1,2,1,2, 2,1,2,1 :: cell] = TOTAL 4"
    by (simp add: TOTAL_def)
  have "\<not> canMove 4 [1,2,1,2, 2,1,2,1, 1,2,1,2, 2,1,2,1]" by code_simp
  with canMove_iff [OF len] show ?thesis by simp
qed

subsection \<open>slideLine and move\<close>

lemma compact_loop_spec:
  "length line = sz \<Longrightarrow> w \<le> i \<Longrightarrow> i \<le> sz \<Longrightarrow>
   (case compact_loop sz i w line of (w', l') \<Rightarrow>
      w' = w + length (tiles (drop i line)) \<and> length l' = sz \<and>
      take w' l' = take w line @ tiles (drop i line))"
proof (induction sz i w line rule: compact_loop.induct)
  case (1 sz i w line)
  show ?case
  proof (cases "i < sz")
    case False
    then have "compact_loop sz i w line = (w, line)"
      by (subst compact_loop.simps) simp
    with False "1.prems" show ?thesis
      by (simp add: tiles_def)
  next
    case lt: True
    then have d: "drop i line = line ! i # drop (Suc i) line"
      using "1.prems" by (simp add: Cons_nth_drop_Suc)
    show ?thesis
    proof (cases "line ! i \<noteq> 0")
      case True
      have t: "take (Suc w) (line[w := line ! i]) = take w line @ [line ! i]"
        using "1.prems" lt by (simp add: take_Suc_conv_app_nth)
      have dr: "drop (Suc i) (line[w := line ! i]) = drop (Suc i) line"
        using "1.prems" by simp
      from "1.IH"(1) [OF lt True] "1.prems" lt
      have "case compact_loop sz (i + 1) (w + 1) (line[w := line ! i]) of
              (w', l') \<Rightarrow> w' = w + 1 + length (tiles (drop (i + 1) (line[w := line ! i])))
                \<and> length l' = sz
                \<and> take w' l' = take (w + 1) (line[w := line ! i])
                     @ tiles (drop (i + 1) (line[w := line ! i]))"
        by simp
      with True lt show ?thesis
        by (simp add: compact_loop.simps [of sz i] d t dr tiles_def split: prod.splits)
    next
      case False
      from "1.IH"(2) [OF lt False] "1.prems" lt
      have "case compact_loop sz (i + 1) w line of
              (w', l') \<Rightarrow> w' = w + length (tiles (drop (i + 1) line))
                \<and> length l' = sz
                \<and> take w' l' = take w line @ tiles (drop (i + 1) line)"
        by simp
      with False lt show ?thesis
        by (simp add: compact_loop.simps [of sz i] d tiles_def split: prod.splits)
    qed
  qed
qed

lemma zero_loop_spec:
  "length line = sz \<Longrightarrow> i \<le> sz \<Longrightarrow> zero_loop sz i line = take i line @ replicate (sz - i) 0"
proof (induction sz i line rule: zero_loop.induct)
  case (1 sz i line)
  show ?case
  proof (cases "i < sz")
    case False
    then have "zero_loop sz i line = line"
      by (subst zero_loop.simps) simp
    with False "1.prems" show ?thesis by simp
  next
    case True
    with "1.IH" "1.prems"
    have "zero_loop sz (i + 1) (line[i := 0]) = take (i + 1) (line[i := 0]) @ replicate (sz - (i + 1)) 0"
      by simp
    moreover have "take (i + 1) (line[i := 0]) = take i line @ [0]"
      using True "1.prems" by (simp add: take_Suc_conv_app_nth)
    moreover have "replicate (sz - i) (0::cell) = 0 # replicate (sz - (i + 1)) 0"
      using True by (simp add: Suc_diff_Suc flip: replicate_Suc)
    ultimately show ?thesis
      using True by (simp add: zero_loop.simps [of sz i])
  qed
qed

lemma compact_spec: "length line = sz \<Longrightarrow> compact_line line sz = pad sz (tiles line)"
  using compact_loop_spec [of line sz 0 0]
  by (auto simp: compact_line_def pad_def tiles_def zero_loop_spec split: prod.splits)

lemma merge_loop_spec:
  "length line = sz \<Longrightarrow> i \<le> sz \<Longrightarrow>
   merge_loop sz i r line =
     (r + fst (merge_pass (drop i line)), take i line @ snd (merge_pass (drop i line)))"
proof (induction sz i r line rule: merge_loop.induct)
  case (1 sz i r line)
  show ?case
  proof (cases "i < sz - 1")
    case False
    then have unf: "merge_loop sz i r line = (r, line)"
      by (subst merge_loop.simps) simp
    from False "1.prems" have "length (drop i line) \<le> 1" by simp
    then have "merge_pass (drop i line) = (0, drop i line)"
      by (cases "drop i line" rule: merge_pass.cases) simp_all
    with unf show ?thesis by simp
  next
    case lt: True
    with "1.prems" have d: "drop i line = line ! i # line ! (i + 1) # drop (i + 2) line"
      by (simp add: Cons_nth_drop_Suc)
    show ?thesis
    proof (cases "line ! i \<noteq> 0 \<and> line ! i = line ! (i + 1)")
      case True
      define line2 where "line2 = line[i := line ! i + 1, i + 1 := 0]"
      have len2: "length line2 = sz" using "1.prems" by (simp add: line2_def)
      have e: "line[i := line ! i + 1] ! i = line ! i + 1"
        using lt "1.prems" by simp
      have unf: "merge_loop sz i r line = merge_loop sz (i + 2) (r + js_shl1 (line ! i + 1)) line2"
        by (subst merge_loop.simps) (simp only: lt if_True if_P [OF True] Let_def line2_def e)
      have dr: "drop (i + 2) line2 = drop (i + 2) line"
        by (simp add: line2_def)
      have tk: "take (i + 2) line2 = take i line @ [line ! i + 1, 0]"
        using lt "1.prems" by (simp add: line2_def take_Suc_conv_app_nth nth_list_update)
      have "merge_loop sz (i + 2) (r + js_shl1 (line ! i + 1)) line2 =
              (r + js_shl1 (line ! i + 1) + fst (merge_pass (drop (i + 2) line2)),
               take (i + 2) line2 @ snd (merge_pass (drop (i + 2) line2)))"
        using "1.IH"(1) [OF lt True refl refl refl] len2 lt "1.prems"
        by (simp add: line2_def)
      moreover have "merge_pass (drop i line) =
              (js_shl1 (line ! i + 1) + fst (merge_pass (drop (i + 2) line)),
               (line ! i + 1) # 0 # snd (merge_pass (drop (i + 2) line)))"
        using True by (subst d) (auto simp: case_prod_beta)
      ultimately show ?thesis
        by (simp only: unf dr tk fst_conv snd_conv append_assoc append_Cons append_Nil add.assoc)
    next
      case False
      have unf: "merge_loop sz i r line = merge_loop sz (i + 1) r line"
        by (subst merge_loop.simps) (simp only: lt False if_True if_False)
      have "merge_loop sz (i + 1) r line =
              (r + fst (merge_pass (drop (i + 1) line)),
               take (i + 1) line @ snd (merge_pass (drop (i + 1) line)))"
        using "1.IH"(2) [OF lt False] lt "1.prems" by simp
      moreover have "drop (i + 1) line = line ! (i + 1) # drop (i + 2) line"
        using lt "1.prems" by (simp add: Cons_nth_drop_Suc)
      moreover have "take (i + 1) line = take i line @ [line ! i]"
        using lt "1.prems" by (simp add: take_Suc_conv_app_nth)
      ultimately show ?thesis
        using unf False by (auto simp: d split: prod.splits)
    qed
  qed
qed

lemma merge_pass_zeros: "merge_pass (replicate n 0) = (0, replicate n 0)"
proof (induction n rule: less_induct)
  case (less n)
  show ?case
  proof (cases n)
    case 0
    then show ?thesis by simp
  next
    case (Suc m)
    show ?thesis
    proof (cases m)
      case 0
      with Suc show ?thesis by simp
    next
      case (Suc k)
      with \<open>n = Suc m\<close> less [of m] show ?thesis by simp
    qed
  qed
qed

lemma merge_pass_zeros_Cons: "merge_pass (0 # replicate n 0) = (0, 0 # replicate n 0)"
  using merge_pass_zeros [of "Suc n"] by simp

lemma merge_pass_single: "x \<noteq> 0 \<Longrightarrow> merge_pass (x # replicate n 0) = (0, x # replicate n 0)"
  by (cases n) (simp_all add: merge_pass_zeros_Cons)

lemma merge_pass_tiles:
  "0 \<notin> set xs \<Longrightarrow>
   fst (merge_pass (xs @ replicate n 0)) = sum_list (map js_shl1 (created_tiles xs)) \<and>
   tiles (snd (merge_pass (xs @ replicate n 0))) = tiles (merge_tiles xs) \<and>
   length (snd (merge_pass (xs @ replicate n 0))) = length xs + n"
proof (induction xs rule: merge_tiles.induct)
  case (1 x y xs)
  then show ?case
    by (auto simp: tiles_def split: prod.splits)
qed (simp_all add: merge_pass_zeros merge_pass_single tiles_def)

lemma length_tiles_merge: "length (tiles (merge_tiles xs)) \<le> length xs"
  by (induction xs rule: merge_tiles.induct) (auto simp: tiles_def le_SucI)

theorem slideLine_spec:
  assumes "length line = sz"
  shows "slideLine line sz =
    (sum_list (map js_shl1 (created_tiles (tiles line))), pad sz (tiles (merge_tiles (tiles line))))"
proof -
  let ?n = "sz - length (tiles line)"
  have c: "compact_line line sz = tiles line @ replicate ?n 0"
    using assms by (simp add: compact_spec pad_def)
  have len: "length (tiles line) \<le> sz"
    using assms by (auto simp: tiles_def)
  have nz: "0 \<notin> set (tiles line)" by (simp add: tiles_def)
  note mp = merge_pass_tiles [OF nz, of ?n]
  have ml: "merge_loop sz 0 0 (compact_line line sz) = merge_pass (tiles line @ replicate ?n 0)"
    using merge_loop_spec [of "compact_line line sz" sz 0 0] c len by simp
  have len2: "length (snd (merge_pass (tiles line @ replicate ?n 0))) = sz"
    using mp len by simp
  show ?thesis
    using mp ml compact_spec [OF len2]
    by (simp add: slideLine_def case_prod_beta)
qed

lemma fold_update_upt:
  "m \<le> length l \<Longrightarrow> fold (\<lambda>i l. l[i := f i]) [0..<m] l = map f [0..<m] @ drop m l"
proof (induction m)
  case 0
  then show ?case by simp
next
  case (Suc m)
  then have "fold (\<lambda>i l. l[i := f i]) [0..<Suc m] l = (map f [0..<m] @ drop m l)[m := f m]"
    by simp
  also have "\<dots> = map f [0..<m] @ (drop m l)[0 := f m]"
    by (simp add: list_update_append)
  also have "(drop m l)[0 := f m] = f m # drop (Suc m) l"
    using Suc.prems by (simp add: Cons_nth_drop_Suc [symmetric])
  finally show ?case by simp
qed

lemma read_line_eq:
  assumes "dir < 4" "length line = sz"
  shows "read_line sz board dir k line = line_of sz board dir k"
proof -
  have "read_line sz board dir k line =
          fold (\<lambda>i l. l[i := board ! line_index sz dir k i]) [0..<sz] line"
    using assms(1) unfolding read_line_def line_index_def
    by (intro arg_cong [where f = "\<lambda>g. fold g [0..<sz] line"] ext) auto
  then show ?thesis
    using assms(2) by (simp add: fold_update_upt line_of_def)
qed

lemma write_line_eq:
  assumes "dir < 4"
  shows "write_line sz board dir k line =
           fold (\<lambda>i b. b[line_index sz dir k i := line ! i]) [0..<sz] board"
  using assms unfolding write_line_def line_index_def
  by (intro arg_cong [where f = "\<lambda>g. fold g [0..<sz] board"] ext) auto

lemma length_fold_update [simp]: "length (fold (\<lambda>i b. b[g i := h i]) is b) = length b"
  by (induction "is" arbitrary: b) simp_all

lemma fold_update_other:
  "j \<notin> g ` set is \<Longrightarrow> fold (\<lambda>i b. b[g i := h i]) is b ! j = b ! j"
  by (induction "is" arbitrary: b) auto

lemma fold_update_hit:
  "i \<in> set is \<Longrightarrow> inj_on g (set is) \<Longrightarrow> distinct is \<Longrightarrow> g i < length b \<Longrightarrow>
   fold (\<lambda>i b. b[g i := h i]) is b ! g i = h i"
proof (induction "is" arbitrary: b)
  case Nil
  then show ?case by simp
next
  case (Cons a "is")
  show ?case
  proof (cases "i = a")
    case True
    with Cons.prems have "g i \<notin> g ` set is" by (auto simp: inj_on_def)
    with True Cons.prems show ?thesis by (simp add: fold_update_other)
  next
    case False
    with Cons show ?thesis by (auto simp: inj_on_def)
  qed
qed

lemma rc_unique:
  "b < sz \<Longrightarrow> b' < sz \<Longrightarrow> a * sz + b = a' * sz + b' \<Longrightarrow> a = a' \<and> b = (b'::nat)"
proof -
  assume b: "b < sz" and b': "b' < sz" and eq: "a * sz + b = a' * sz + b'"
  from b have "(a * sz + b) div sz = a" "(a * sz + b) mod sz = b" by simp_all
  moreover from b' have "(a' * sz + b') div sz = a'" "(a' * sz + b') mod sz = b'" by simp_all
  ultimately show ?thesis using eq by metis
qed

lemma line_index_less:
  "k < sz \<Longrightarrow> i < sz \<Longrightarrow> line_index sz dir k i < TOTAL sz"
proof -
  assume k: "k < sz" and i: "i < sz"
  then have f: "sz - 1 - i < sz" by arith
  show ?thesis
    unfolding line_index_def
    using cell_in_range [OF k i] cell_in_range [OF i k]
      cell_in_range [OF k f] cell_in_range [OF f k]
    by simp
qed

lemma line_index_inj:
  assumes "k < sz" "i < sz" "k' < sz" "i' < sz"
    and "line_index sz dir k i = line_index sz dir k' i'"
  shows "k = k' \<and> i = i'"
proof -
  have flip: "sz - 1 - i = sz - 1 - i' \<Longrightarrow> i = i'" using assms(2,4) by arith
  have lt: "sz - 1 - i < sz" "sz - 1 - i' < sz" using assms(2,4) by arith+
  show ?thesis
    using assms rc_unique [of k sz k' i i'] rc_unique [of i sz i' k k']
      rc_unique [of k sz k' "sz - 1 - i" "sz - 1 - i'"]
      rc_unique [of "sz - 1 - i" sz "sz - 1 - i'" k k'] flip lt
    unfolding line_index_def by (auto split: if_splits)
qed

lemma line_index_surj:
  assumes "j < TOTAL sz"
  shows "\<exists>k < sz. \<exists>i < sz. line_index sz dir k i = j"
proof -
  from assms have pos: "0 < sz" by (cases sz) (simp_all add: TOTAL_def)
  from assms have d: "j div sz < sz" by (simp add: TOTAL_def less_mult_imp_div_less)
  from pos have m: "j mod sz < sz" by simp
  have j: "j div sz * sz + j mod sz = j" by simp
  have r: "sz - 1 - (sz - 1 - j mod sz) = j mod sz" "sz - 1 - (sz - 1 - j div sz) = j div sz"
    using m d by arith+
  have l: "sz - 1 - j mod sz < sz" "sz - 1 - j div sz < sz" using pos by arith+
  consider "dir = 0" | "dir = 1" | "dir = 2" | "dir \<noteq> 0 \<and> dir \<noteq> 1 \<and> dir \<noteq> 2" by blast
  then show ?thesis
  proof cases
    case 1
    then have "line_index sz dir (j mod sz) (j div sz) = j" by (simp add: line_index_def)
    with d m show ?thesis by blast
  next
    case 2
    then have "line_index sz dir (j div sz) (sz - 1 - j mod sz) = j"
      using r j by (simp add: line_index_def)
    with d l show ?thesis by blast
  next
    case 3
    then have "line_index sz dir (j mod sz) (sz - 1 - j div sz) = j"
      using r j by (simp add: line_index_def)
    with m l show ?thesis by blast
  next
    case 4
    then have "line_index sz dir (j div sz) (j mod sz) = j" by (simp add: line_index_def)
    with d m show ?thesis by blast
  qed
qed

lemma length_line_of [simp]: "length (line_of sz board dir k) = sz"
  by (simp add: line_of_def)

lemma length_slideLine: "length line = sz \<Longrightarrow> length (snd (slideLine line sz)) = sz"
proof -
  assume len: "length line = sz"
  have "length (tiles (merge_tiles (tiles line))) \<le> length (tiles line)"
    by (rule length_tiles_merge)
  also have "\<dots> \<le> sz" using len by (auto simp: tiles_def)
  finally show ?thesis
    using len by (simp add: slideLine_spec pad_def)
qed

lemma move_inv_step:
  assumes dir: "dir < 4" and m: "m < sz"
    and inv: "move_inv sz board dir m s"
  shows "move_inv sz board dir (Suc m) (move_step sz dir m s)"
proof -
  let ?g = "line_index sz dir m"
  let ?orig = "line_of sz board dir m"
  let ?line = "snd (slideLine ?orig sz)"
  let ?B = "fold (\<lambda>i b. b[?g i := ?line ! i]) [0..<sz] (ms_board s)"
  from inv have lenb: "length (ms_board s) = TOTAL sz" and lenl: "length (ms_line s) = sz"
    and cells: "\<And>k i. k < sz \<Longrightarrow> i < sz \<Longrightarrow> ms_board s ! line_index sz dir k i =
        (if k < m then snd (slideLine (line_of sz board dir k) sz) ! i
         else board ! line_index sz dir k i)"
    and rew: "reward (ms_result s) = (\<Sum>k\<leftarrow>[0..<m]. fst (slideLine (line_of sz board dir k) sz))"
    and mov: "moved (ms_result s) =
       (\<exists>k < m. snd (slideLine (line_of sz board dir k) sz) \<noteq> line_of sz board dir k)"
    by (simp_all add: move_inv_def)
  have "line_of sz (ms_board s) dir m = ?orig"
    using cells [OF m] by (simp add: line_of_def)
  then have rd: "read_line sz (ms_board s) dir m (ms_line s) = ?orig"
    using read_line_eq [OF dir lenl] by simp
  have lenline: "length ?line = sz" by (simp add: length_slideLine)
  have step: "move_step sz dir m s =
      \<lparr> ms_board = ?B, ms_line = ?line,
        ms_result = \<lparr> moved = (moved (ms_result s) \<or> list_ex (\<lambda>i. ?line ! i \<noteq> ?orig ! i) [0..<sz]),
                      reward = reward (ms_result s) + fst (slideLine ?orig sz) \<rparr> \<rparr>"
    by (simp add: move_step_def rd write_line_eq [OF dir] case_prod_beta Let_def)
  have inj: "inj_on ?g (set [0..<sz])"
    using line_index_inj [OF m _ m] by (auto simp: inj_on_def)
  have cells': "?B ! line_index sz dir k i =
        (if k < Suc m then snd (slideLine (line_of sz board dir k) sz) ! i
         else board ! line_index sz dir k i)" if k: "k < sz" and i: "i < sz" for k i
  proof (cases "k = m")
    case True
    have "?B ! ?g i = ?line ! i"
      using i lenb line_index_less [OF m i] inj
      by (intro fold_update_hit) simp_all
    with True show ?thesis by simp
  next
    case False
    then have "line_index sz dir k i \<notin> ?g ` set [0..<sz]"
      using line_index_inj [OF k i m] by auto
    then have "?B ! line_index sz dir k i = ms_board s ! line_index sz dir k i"
      by (rule fold_update_other)
    with False cells [OF k i] show ?thesis by (auto simp: less_Suc_eq)
  qed
  have ch: "list_ex (\<lambda>i. ?line ! i \<noteq> ?orig ! i) [0..<sz] \<longleftrightarrow> ?line \<noteq> ?orig"
    using lenline by (auto simp: list_ex_iff list_eq_iff_nth_eq)
  show ?thesis
    unfolding move_inv_def step
    using lenb lenline cells' rew mov ch
    by (auto simp: less_Suc_eq)
qed

lemma move_inv_fold:
  assumes "dir < 4" "length board = TOTAL sz"
  shows "m \<le> sz \<Longrightarrow> move_inv sz board dir m
     (fold (move_step sz dir) [0..<m]
        \<lparr> ms_board = board, ms_line = replicate sz 0,
          ms_result = \<lparr> moved = False, reward = 0 \<rparr> \<rparr>)"
proof (induction m)
  case 0
  show ?case using assms(2) by (simp add: move_inv_def)
next
  case (Suc m)
  then show ?case using move_inv_step [OF assms(1), of m sz board] by simp
qed

lemma js_shl1_pow: "unat c < 31 \<Longrightarrow> js_shl1 c = 2 ^ unat c"
proof -
  assume c: "unat c < 31"
  have "(2::int) ^ unat c < 2 ^ 31"
    using c by (intro power_strict_increasing) simp_all
  moreover have "- (2 ^ 31) \<le> (2::int) ^ unat c"
    by (rule order_trans [of _ 0]) simp_all
  ultimately have "signed_take_bit 31 ((2::int) ^ unat c) = 2 ^ unat c"
    by (simp add: signed_take_bit_int_eq_self)
  moreover have "sint (push_bit (unat c) (1 :: 32 word)) = sint (word_of_int (2 ^ unat c) :: 32 word)"
    by (simp add: push_bit_of_1)
  moreover have "sint (word_of_int (2 ^ unat c) :: 32 word) = signed_take_bit 31 (2 ^ unat c)"
    by (subst sint_sbintrunc') simp
  ultimately show ?thesis
    using c by (simp add: js_shl1_def)
qed

lemma move_cells:
  assumes "dir < 4" "length board = TOTAL sz" "k < sz" "i < sz"
  shows "fst (move sz board dir) ! line_index sz dir k i =
           snd (slideLine (line_of sz board dir k) sz) ! i"
  using move_inv_fold [OF assms(1,2) order_refl] assms(3,4)
  by (simp add: move_def move_inv_def Let_def)

lemma move_length:
  assumes "dir < 4" "length board = TOTAL sz"
  shows "length (fst (move sz board dir)) = TOTAL sz"
  using move_inv_fold [OF assms order_refl]
  by (simp add: move_def move_inv_def Let_def)

lemma move_reward_lines:
  assumes "dir < 4" "length board = TOTAL sz"
  shows "reward (snd (move sz board dir)) =
           (\<Sum>k\<leftarrow>[0..<sz]. \<Sum>c\<leftarrow>created_tiles (tiles (line_of sz board dir k)). js_shl1 c)"
  using move_inv_fold [OF assms order_refl]
  by (simp add: move_def move_inv_def Let_def slideLine_spec)

lemma move_moved_lines:
  assumes "dir < 4" "length board = TOTAL sz"
  shows "moved (snd (move sz board dir)) \<longleftrightarrow>
           (\<exists>k < sz. pad sz (tiles (merge_tiles (tiles (line_of sz board dir k)))) \<noteq>
                line_of sz board dir k)"
  using move_inv_fold [OF assms order_refl]
  by (simp add: move_def move_inv_def Let_def slideLine_spec)

lemma created_tiles_shrink:
  "created_tiles xs \<noteq> [] \<Longrightarrow> length (tiles (merge_tiles xs)) < length xs"
proof (induction xs rule: created_tiles.induct)
  case (1 x y xs)
  show ?case
  proof (cases "x = y")
    case True
    have "length (tiles (merge_tiles xs)) \<le> length xs" by (rule length_tiles_merge)
    with True show ?thesis by (simp add: tiles_def less_Suc_eq_le le_SucI)
  next
    case False
    with 1 show ?thesis by (simp add: tiles_def)
  qed
qed simp_all

lemma tiles_pad [simp]: "tiles (pad sz xs) = tiles xs"
  by (simp add: tiles_def pad_def)

lemma tiles_tiles [simp]: "tiles (tiles xs) = tiles xs"
  by (simp add: tiles_def)

lemma unchanged_no_merge:
  assumes "pad sz (tiles (merge_tiles (tiles line))) = line"
  shows "created_tiles (tiles line) = []"
proof (rule ccontr)
  assume "created_tiles (tiles line) \<noteq> []"
  then have "length (tiles (merge_tiles (tiles line))) < length (tiles line)"
    by (rule created_tiles_shrink)
  moreover have "tiles (pad sz (tiles (merge_tiles (tiles line)))) = tiles line"
    using assms by simp
  ultimately show False by simp
qed

lemma created_tiles_subset: "set (created_tiles xs) \<subseteq> (\<lambda>x. x + 1) ` set xs"
  by (induction xs rule: created_tiles.induct) auto

lemma set_line_of:
  assumes "length board = TOTAL sz" "k < sz"
  shows "set (line_of sz board dir k) \<subseteq> set board"
  using assms line_index_less [OF assms(2)]
  by (auto simp: line_of_def)

lemma created_code_bound:
  assumes "length board = TOTAL sz" "k < sz" "\<forall>c\<in>set board. unat c < n" "n < 256"
    and "c \<in> set (created_tiles (tiles (line_of sz board dir k)))"
  shows "unat c \<le> n \<and> c \<noteq> 0"
proof -
  from assms(5) created_tiles_subset obtain x where
    x: "x \<in> set (tiles (line_of sz board dir k))" and c: "c = x + 1" by blast
  from x set_line_of [OF assms(1,2)] have "x \<in> set board" by (auto simp: tiles_def)
  with assms(3) have "unat x < n" by blast
  with assms(4) have "unat (x + 1) = unat x + 1"
    by (simp add: unat_word_ariths)
  with c \<open>unat x < n\<close> show ?thesis by (auto simp: unat_eq_zero [symmetric] simp del: unat_eq_zero)
qed

text \<open>
  C1. On every board whose codes are below 30 (the documented codes are 0..15, and
  \<open>1 << code\<close> is a signed 32-bit shift), the reward of \<open>move\<close> is the sum of the values
  \<open>2 ^ code\<close> of the tiles that the merges of this call create, line by line; and the
  reward is 0 when \<open>moved\<close> is false.
\<close>

theorem move_reward_is_merge_sum:
  assumes "dir < 4" and "length board = TOTAL sz" and "\<forall>c\<in>set board. unat c < 30"
  shows "reward (snd (move sz board dir)) =
           (\<Sum>k\<leftarrow>[0..<sz]. \<Sum>c\<leftarrow>created_tiles (tiles (line_of sz board dir k)). 2 ^ unat c) \<and>
         (\<not> moved (snd (move sz board dir)) \<longrightarrow> reward (snd (move sz board dir)) = 0)"
proof
  have "(\<Sum>c\<leftarrow>created_tiles (tiles (line_of sz board dir k)). js_shl1 c) =
        (\<Sum>c\<leftarrow>created_tiles (tiles (line_of sz board dir k)). 2 ^ unat c)"
    if "k \<in> set [0..<sz]" for k
  proof (rule arg_cong [where f = sum_list], rule map_cong [OF refl])
    fix c assume "c \<in> set (created_tiles (tiles (line_of sz board dir k)))"
    with created_code_bound [OF assms(2) _ assms(3), of k c dir] that
    have "unat c \<le> 30" by simp
    then show "js_shl1 c = 2 ^ unat c" by (simp add: js_shl1_pow)
  qed
  then have "map (\<lambda>k. \<Sum>c\<leftarrow>created_tiles (tiles (line_of sz board dir k)). js_shl1 c) [0..<sz] =
        map (\<lambda>k. \<Sum>c\<leftarrow>created_tiles (tiles (line_of sz board dir k)). 2 ^ unat c) [0..<sz]"
    by (intro map_cong [OF refl])
  then show "reward (snd (move sz board dir)) =
           (\<Sum>k\<leftarrow>[0..<sz]. \<Sum>c\<leftarrow>created_tiles (tiles (line_of sz board dir k)). 2 ^ unat c)"
    unfolding move_reward_lines [OF assms(1,2)] by (rule arg_cong [where f = sum_list])
next
  show "\<not> moved (snd (move sz board dir)) \<longrightarrow> reward (snd (move sz board dir)) = 0"
  proof
    assume "\<not> moved (snd (move sz board dir))"
    then have none: "\<And>k. k < sz \<Longrightarrow> created_tiles (tiles (line_of sz board dir k)) = []"
      using move_moved_lines [OF assms(1,2)] unchanged_no_merge by blast
    have z: "(\<Sum>c\<leftarrow>created_tiles (tiles (line_of sz board dir k)). js_shl1 c) = 0"
      if "k \<in> set [0..<sz]" for k
      using that none [of k] by simp
    have "reward (snd (move sz board dir)) = sum_list (map (\<lambda>k. 0) [0..<sz])"
      unfolding move_reward_lines [OF assms(1,2)]
      by (rule arg_cong [where f = sum_list], rule map_cong [OF refl], rule z)
    then show "reward (snd (move sz board dir)) = 0"
      by simp
  qed
qed

theorem move_reward_is_merge_sum_witness:
  "reward (snd (move 4 [1,1,0,0, 2,2,2,2, 0,0,0,0, 3,0,3,0] 3)) = 4 + (8 + 8) + 16 \<and>
   moved (snd (move 4 [1,1,0,0, 2,2,2,2, 0,0,0,0, 3,0,3,0] 3)) \<and>
   reward (snd (move 4 [1,2,0,0, 2,0,0,0, 0,0,0,0, 3,0,0,0] 3)) = 0"
proof -
  let ?b = "[1,1,0,0, 2,2,2,2, 0,0,0,0, 3,0,3,0] :: board"
  let ?c = "[1,2,0,0, 2,0,0,0, 0,0,0,0, 3,0,0,0] :: board"
  have "(\<Sum>k\<leftarrow>[0..<4]. \<Sum>c\<leftarrow>created_tiles (tiles (line_of 4 ?b 3 k)). (2::int) ^ unat c) = 36"
    by code_simp
  moreover have "moved (snd (move 4 ?b 3))" by code_simp
  moreover have "\<not> moved (snd (move 4 ?c 3))" by code_simp
  moreover have "(3::nat) < 4" "length ?b = TOTAL 4" "\<forall>c\<in>set ?b. unat c < 30"
    "length ?c = TOTAL 4" "\<forall>c\<in>set ?c. unat c < 30"
    by (simp_all add: TOTAL_def)
  ultimately show ?thesis
    using move_reward_is_merge_sum [of 3 ?b 4] move_reward_is_merge_sum [of 3 ?c 4]
    by simp
qed

subsection \<open>The total tile value\<close>


lemma cell_value_succ:
  "x \<noteq> 0 \<Longrightarrow> unat x < 255 \<Longrightarrow> cell_value (x + 1) = 2 * cell_value x"
proof -
  assume x: "x \<noteq> 0" and b: "unat x < 255"
  from b have u: "unat (x + 1) = unat x + 1" by (simp add: unat_word_ariths)
  then have "x + 1 \<noteq> 0" by (metis Suc_eq_plus1 nat.simps(3) unat_0)
  with x u show ?thesis by (simp add: cell_value_def)
qed

lemma merge_tiles_value:
  "\<forall>x\<in>set xs. x \<noteq> 0 \<and> unat x < 255 \<Longrightarrow>
   sum_list (map cell_value (merge_tiles xs)) = sum_list (map cell_value xs)"
  by (induction xs rule: merge_tiles.induct) (auto simp: cell_value_succ)

lemma tiles_value: "sum_list (map cell_value (tiles xs)) = sum_list (map cell_value xs)"
  by (induction xs) (auto simp: tiles_def cell_value_def)

lemma pad_value: "sum_list (map cell_value (pad sz xs)) = sum_list (map cell_value xs)"
  by (simp add: pad_def cell_value_def)

lemma slideLine_value:
  assumes "length line = sz" "\<forall>c\<in>set line. unat c < 255"
  shows "sum_list (map cell_value (snd (slideLine line sz))) = sum_list (map cell_value line)"
proof -
  have "\<forall>x\<in>set (tiles line). x \<noteq> 0 \<and> unat x < 255"
    using assms(2) by (auto simp: tiles_def)
  then show ?thesis
    using assms(1) by (simp add: slideLine_spec pad_value tiles_value merge_tiles_value)
qed

lemma line_index_bij:
  "bij_betw (\<lambda>(k, i). line_index sz dir k i) ({..<sz} \<times> {..<sz}) {..<TOTAL sz}"
  unfolding bij_betw_def
proof
  show "inj_on (\<lambda>(k, i). line_index sz dir k i) ({..<sz} \<times> {..<sz})"
    using line_index_inj [of _ sz _ _ _ dir] by (auto simp: inj_on_def)
  show "(\<lambda>(k, i). line_index sz dir k i) ` ({..<sz} \<times> {..<sz}) = {..<TOTAL sz}"
  proof (rule set_eqI, rule iffI)
    fix j assume "j \<in> (\<lambda>(k, i). line_index sz dir k i) ` ({..<sz} \<times> {..<sz})"
    then show "j \<in> {..<TOTAL sz}" using line_index_less by auto
  next
    fix j assume "j \<in> {..<TOTAL sz}"
    then obtain k i where "k < sz" "i < sz" "line_index sz dir k i = j"
      using line_index_surj [of j sz dir] by auto
    then show "j \<in> (\<lambda>(k, i). line_index sz dir k i) ` ({..<sz} \<times> {..<sz})"
      by force
  qed
qed

lemma board_value_lines:
  assumes "length b = TOTAL sz"
  shows "board_value b = (\<Sum>k < sz. \<Sum>i < sz. cell_value (b ! line_index sz dir k i))"
proof -
  have "board_value b = (\<Sum>j<TOTAL sz. cell_value (b ! j))"
    using assms by (simp add: board_value_def sum_list_sum_nth atLeast0LessThan)
  also have "\<dots> = (\<Sum>p\<in>{..<sz} \<times> {..<sz}. cell_value (b ! (case p of (k, i) \<Rightarrow> line_index sz dir k i)))"
    by (rule sum.reindex_bij_betw [OF line_index_bij, symmetric])
  also have "\<dots> = (\<Sum>k < sz. \<Sum>i < sz. cell_value (b ! line_index sz dir k i))"
    by (simp add: sum.cartesian_product case_prod_beta)
  finally show ?thesis .
qed

lemma line_value_nth:
  "length l = sz \<Longrightarrow> (\<Sum>i < sz. cell_value (l ! i)) = sum_list (map cell_value l)"
  by (simp add: sum_list_sum_nth atLeast0LessThan)

text \<open>
  C9. \<open>move\<close> preserves the sum of \<open>2 ^ code\<close> over the non-empty cells, on every board
  whose codes are below 255 (a cell is a byte: the code after 255 is 0).
\<close>

theorem move_preserves_value:
  assumes "dir < 4" and "length board = TOTAL sz" and "\<forall>c\<in>set board. unat c < 255"
  shows "board_value (fst (move sz board dir)) = board_value board"
proof -
  have "(\<Sum>i < sz. cell_value (fst (move sz board dir) ! line_index sz dir k i)) =
        (\<Sum>i < sz. cell_value (board ! line_index sz dir k i))" if k: "k < sz" for k
  proof -
    have "(\<Sum>i < sz. cell_value (fst (move sz board dir) ! line_index sz dir k i)) =
          (\<Sum>i < sz. cell_value (snd (slideLine (line_of sz board dir k) sz) ! i))"
      using move_cells [OF assms(1,2) k] by simp
    also have "\<dots> = sum_list (map cell_value (snd (slideLine (line_of sz board dir k) sz)))"
      by (rule line_value_nth) (simp add: length_slideLine)
    also have "\<dots> = sum_list (map cell_value (line_of sz board dir k))"
      using set_line_of [OF assms(2) k, of dir] assms(3)
      by (intro slideLine_value) auto
    also have "\<dots> = (\<Sum>i < sz. cell_value (line_of sz board dir k ! i))"
      by (rule line_value_nth [symmetric]) simp
    also have "\<dots> = (\<Sum>i < sz. cell_value (board ! line_index sz dir k i))"
      by (simp add: line_of_def)
    finally show ?thesis .
  qed
  then show ?thesis
    by (simp add: board_value_lines [OF move_length [OF assms(1,2)], of dir]
        board_value_lines [OF assms(2), of dir])
qed

theorem move_preserves_value_witness:
  "board_value (fst (move 4 [1,1,0,0, 2,2,2,2, 0,0,0,0, 3,0,3,0] 3)) = 36 \<and>
   fst (move 4 [1,1,0,0, 2,2,2,2, 0,0,0,0, 3,0,3,0] 3) = [2,0,0,0, 3,3,0,0, 0,0,0,0, 4,0,0,0]"
proof -
  let ?b = "[1,1,0,0, 2,2,2,2, 0,0,0,0, 3,0,3,0] :: board"
  have "board_value ?b = 36" by code_simp
  moreover have "fst (move 4 ?b 3) = [2,0,0,0, 3,3,0,0, 0,0,0,0, 4,0,0,0]" by code_simp
  moreover have "(3::nat) < 4" "length ?b = TOTAL 4" "\<forall>c\<in>set ?b. unat c < 255"
    by (simp_all add: TOTAL_def)
  ultimately show ?thesis
    using move_preserves_value [of 3 ?b 4] by simp
qed

section \<open>Properties of the catalog and of table indexing\<close>

lemma fold_nth_upt:
  "fold (\<lambda>i a. f a (v ! i)) [0..<length v] a0 = fold (\<lambda>x a. f a x) v a0"
proof (induction v rule: rev_induct)
  case Nil
  then show ?case by simp
next
  case (snoc x xs)
  have "fold (\<lambda>i a. f a ((xs @ [x]) ! i)) [0..<length xs] a0 =
        fold (\<lambda>i a. f a (xs ! i)) [0..<length xs] a0"
    by (rule fold_cong) (simp_all add: nth_append)
  with snoc show ?case by simp
qed

lemma index_of_fold:
  "index_of board v = fold (\<lambda>x a. a * NUM_VALUES + unat (board ! x)) v 0"
  unfolding index_of_def
  by (rule fold_nth_upt [where f = "\<lambda>a x. a * NUM_VALUES + unat (board ! x)"])

lemma index_of_bound:
  "\<forall>i\<in>set v. unat (board ! i) < NUM_VALUES \<Longrightarrow> index_of board v < NUM_VALUES ^ length v"
  unfolding index_of_fold
proof (induction v rule: rev_induct)
  case Nil
  then show ?case by simp
next
  case (snoc x xs)
  let ?a = "fold (\<lambda>x a. a * NUM_VALUES + unat (board ! x)) xs 0"
  from snoc have a: "?a < NUM_VALUES ^ length xs" and d: "unat (board ! x) < NUM_VALUES"
    by simp_all
  from a have "?a + 1 \<le> NUM_VALUES ^ length xs" by simp
  then have "(?a + 1) * NUM_VALUES \<le> NUM_VALUES ^ length xs * NUM_VALUES"
    by (rule mult_le_mono1)
  with d have "?a * NUM_VALUES + unat (board ! x) < NUM_VALUES ^ length xs * NUM_VALUES"
    by simp
  then show ?case by (simp add: mult.commute)
qed

lemma set_keep_first [simp]: "set (keep_first xs) = set xs"
  by (induction xs rule: keep_first.induct) auto

lemma distinct_keep_first [simp]: "distinct (keep_first xs)"
  by (induction xs rule: keep_first.induct) auto

lemma length_keep_first: "length (keep_first xs) \<le> length xs"
proof (induction xs rule: keep_first.induct)
  case 1
  then show ?case by simp
next
  case (2 x xs)
  have "length (filter (\<lambda>y. y \<noteq> x) xs) \<le> length xs" by simp
  with 2 have "length (keep_first (filter (\<lambda>y. y \<noteq> x) xs)) \<le> length xs"
    by (rule le_trans)
  then show ?case by simp
qed

lemma append_single_eq:
  "a @ [x] = b @ [y] \<longleftrightarrow> a = b \<and> x = y"
  by simp

lemma of_char_digit_char: "d < 10 \<Longrightarrow> (of_char (digit_char d) :: nat) = 48 + d"
  by (simp add: digit_char_def take_bit_nat_eq_self)

lemma digit_char_inj:
  assumes "d < 10" "e < 10" "digit_char d = digit_char e"
  shows "d = e"
proof -
  have "(of_char (digit_char d) :: nat) = of_char (digit_char e)"
    using assms(3) by (rule arg_cong)
  then have "48 + d = 48 + e"
    by (simp only: of_char_digit_char [OF assms(1)] of_char_digit_char [OF assms(2)])
  then show ?thesis by (simp only: add_left_cancel)
qed

lemma digit_char_not_comma: "d < 10 \<Longrightarrow> digit_char d \<noteq> CHR '',''"
proof
  assume d: "d < 10" and c: "digit_char d = CHR '',''"
  from c have "(of_char (digit_char d) :: nat) = of_char CHR '',''" by (rule arg_cong)
  then have "48 + d = (44::nat)"
    by (simp only: of_char_digit_char [OF d]) simp
  then show False by arith
qed

lemma number_string_nonempty: "number_string n \<noteq> []"
  by (subst number_string.simps) simp

lemma number_string_no_comma: "CHR '','' \<notin> set (number_string n)"
proof (induction n rule: number_string.induct)
  case (1 n)
  show ?case
  proof (cases "n < 10")
    case True
    then show ?thesis
      using digit_char_not_comma [of n] by (subst number_string.simps) auto
  next
    case False
    then show ?thesis
      using 1 digit_char_not_comma [of "n mod 10"] by (subst number_string.simps) auto
  qed
qed

lemma number_string_length: "10 \<le> n \<Longrightarrow> 2 \<le> length (number_string n)"
proof -
  assume "10 \<le> n"
  then have "number_string n = number_string (n div 10) @ [digit_char (n mod 10)]"
    by (subst number_string.simps) simp
  moreover have "1 \<le> length (number_string (n div 10))"
    using number_string_nonempty [of "n div 10"] by (cases "number_string (n div 10)") simp_all
  ultimately show ?thesis by simp
qed

lemma number_string_inj: "number_string n = number_string m \<Longrightarrow> n = m"
proof (induction n arbitrary: m rule: number_string.induct)
  case (1 n)
  show ?case
  proof (cases "n < 10")
    case n: True
    then have sn: "number_string n = [digit_char n]" by (subst number_string.simps) simp
    show ?thesis
    proof (cases "m < 10")
      case True
      then have "number_string m = [digit_char m]" by (subst number_string.simps) simp
      with sn "1.prems" n True show ?thesis by (auto dest: digit_char_inj)
    next
      case False
      then have "2 \<le> length (number_string m)" by (simp add: number_string_length)
      with sn "1.prems" show ?thesis by simp
    qed
  next
    case n: False
    then have sn: "number_string n = number_string (n div 10) @ [digit_char (n mod 10)]"
      by (subst number_string.simps) simp
    show ?thesis
    proof (cases "m < 10")
      case True
      then have "number_string m = [digit_char m]" by (subst number_string.simps) simp
      moreover from n have "2 \<le> length (number_string n)" by (simp add: number_string_length)
      ultimately show ?thesis using "1.prems" by simp
    next
      case False
      then have "number_string m = number_string (m div 10) @ [digit_char (m mod 10)]"
        by (subst number_string.simps) simp
      with sn "1.prems" have e: "number_string (n div 10) = number_string (m div 10)"
        and d: "digit_char (n mod 10) = digit_char (m mod 10)" by simp_all
      from "1.IH" [OF n e] have "n div 10 = m div 10" .
      moreover from d have "n mod 10 = m mod 10" by (intro digit_char_inj) simp_all
      ultimately show ?thesis by (metis div_mult_mod_eq)
    qed
  qed
qed

lemma split_at_comma:
  "CHR '','' \<notin> set a \<Longrightarrow> CHR '','' \<notin> set b \<Longrightarrow> a @ CHR '','' # r = b @ CHR '','' # s \<Longrightarrow>
   a = b \<and> r = s"
proof (induction a arbitrary: b)
  case Nil
  then show ?case by (cases b) auto
next
  case (Cons x a)
  then show ?case by (cases b) auto
qed

lemma join_comma_inj:
  "\<forall>x\<in>set xs \<union> set ys. x \<noteq> [] \<and> CHR '','' \<notin> set x \<Longrightarrow>
   join_comma xs = join_comma ys \<Longrightarrow> xs = ys"
proof (induction xs arbitrary: ys rule: join_comma.induct)
  case 1
  then show ?case by (cases ys rule: join_comma.cases) auto
next
  case (2 x)
  then show ?case by (cases ys rule: join_comma.cases) auto
next
  case (3 x y zs)
  show ?case
  proof (cases ys rule: join_comma.cases)
    case 1
    with 3 show ?thesis by simp
  next
    case (2 u)
    with "3.prems" show ?thesis by auto
  next
    case (3 u v ws)
    with "3.prems" have "x = u \<and> join_comma (y # zs) = join_comma (v # ws)"
      by (intro split_at_comma) auto
    moreover with "3.IH" [of "v # ws"] "3.prems" 3 have "y # zs = v # ws" by auto
    ultimately show ?thesis using 3 by simp
  qed
qed

lemma key_inj:
  "join_comma (map number_string t) = join_comma (map number_string u) \<Longrightarrow> t = u"
proof -
  assume "join_comma (map number_string t) = join_comma (map number_string u)"
  then have "map number_string t = map number_string u"
    by (intro join_comma_inj) (auto simp: number_string_nonempty number_string_no_comma)
  moreover have "inj number_string"
    by (rule injI) (rule number_string_inj)
  ultimately show ?thesis
    by (simp add: inj_map_eq_map)
qed

lemma fold_symmetry_step:
  "snd (fold (symmetry_step p) ms (tuple_key ` set vs, vs)) =
     vs @ keep_first (filter (\<lambda>t. t \<notin> set vs) (map (applySymmetry p) ms))"
proof (induction ms arbitrary: vs)
  case Nil
  then show ?case by simp
next
  case (Cons m ms)
  let ?t = "applySymmetry p m"
  have mem: "tuple_key ?t \<in> tuple_key ` set vs \<longleftrightarrow> ?t \<in> set vs"
    using key_inj by (auto simp: tuple_key_def)
  show ?case
  proof (cases "?t \<in> set vs")
    case True
    with mem have "symmetry_step p m (tuple_key ` set vs, vs) = (tuple_key ` set vs, vs)"
      by (simp add: symmetry_step_def tuple_key_def)
    with True Cons.IH [of vs] show ?thesis by simp
  next
    case False
    with mem have "symmetry_step p m (tuple_key ` set vs, vs) =
        (tuple_key ` set (vs @ [?t]), vs @ [?t])"
      by (simp add: symmetry_step_def tuple_key_def Let_def)
    moreover have "filter (\<lambda>y. y \<noteq> ?t) (filter (\<lambda>t. t \<notin> set vs) (map (applySymmetry p) ms)) =
        filter (\<lambda>t. t \<notin> set (vs @ [?t])) (map (applySymmetry p) ms)"
      by (auto intro: filter_cong)
    ultimately show ?thesis
      using False Cons.IH [of "vs @ [?t]"] by simp
  qed
qed

lemma allSymmetries_keep_first:
  "allSymmetries p = keep_first (map (applySymmetry p) SYMMETRY_MAPS)"
  using fold_symmetry_step [of p SYMMETRY_MAPS "[]"]
  by (simp add: allSymmetries_def)

lemma length_SYMMETRY_MAPS: "length SYMMETRY_MAPS = 8"
  by (simp add: SYMMETRY_MAPS_def)

text \<open>
  C7. The variant list of a pattern (a list of cell indices) is the list of its eight
  transformed tuples with only the first occurrence of each distinct tuple kept, in
  transform order; it has no two equal entries and between 1 and 8 entries.
\<close>

theorem allSymmetries_variants:
  assumes "\<forall>i\<in>set pattern. i < SIZE * SIZE"
  shows "allSymmetries pattern = keep_first (map (applySymmetry pattern) SYMMETRY_MAPS) \<and>
         distinct (allSymmetries pattern) \<and>
         1 \<le> length (allSymmetries pattern) \<and> length (allSymmetries pattern) \<le> 8"
proof -
  let ?ts = "map (applySymmetry pattern) SYMMETRY_MAPS"
  have eq: "allSymmetries pattern = keep_first ?ts" by (rule allSymmetries_keep_first)
  have "length (keep_first ?ts) \<le> length ?ts" by (rule length_keep_first)
  then have le: "length (allSymmetries pattern) \<le> 8"
    by (simp add: eq length_SYMMETRY_MAPS)
  have "?ts \<noteq> []"
    by (simp add: SYMMETRY_MAPS_def)
  then have "keep_first ?ts \<noteq> []"
    by (cases ?ts) simp_all
  then have "1 \<le> length (allSymmetries pattern)"
    by (cases "keep_first ?ts") (simp_all add: eq)
  with eq le show ?thesis by simp
qed

lemma symmetry_maps_range:
  "\<forall>m\<in>set SYMMETRY_MAPS. length m = 16 \<and> (\<forall>x\<in>set m. x < 16)"
  by code_simp

lemma base_patterns_range: "\<forall>p\<in>set BASE_PATTERNS. \<forall>i\<in>set p. i < 16"
  by code_simp

lemma variant_range:
  assumes "v \<in> set (allSymmetries p)" "\<forall>i\<in>set p. i < 16"
  shows "length v = length p \<and> (\<forall>j\<in>set v. j < 16)"
proof -
  from assms(1) obtain m where m: "m \<in> set SYMMETRY_MAPS" and v: "v = applySymmetry p m"
    by (auto simp: allSymmetries_keep_first)
  from m symmetry_maps_range have "length m = 16" "\<forall>x\<in>set m. x < 16" by blast+
  with assms(2) v show ?thesis
    by (auto simp: applySymmetry_def)
qed

lemma same_catalog_entry:
  assumes "same_catalog net" "p \<in> set (patterns net)"
  shows "\<exists>b\<in>set BASE_PATTERNS. tupleLen p = length b \<and> variants p = allSymmetries b \<and>
           length (lut p) = lutSize (length b)"
proof -
  from assms(2) have "(tupleLen p, variants p, length (lut p)) \<in>
      set (map (\<lambda>p. (tupleLen p, variants p, length (lut p))) (patterns net))"
    by (auto intro!: image_eqI [where x = p])
  with assms(1) show ?thesis
    by (auto simp: same_catalog_def)
qed

lemma index_within_table:
  assumes "same_catalog net"
    and "length board = SIZE * SIZE" and "\<forall>c\<in>set board. unat c \<le> 15"
    and "p \<in> set (patterns net)" and "variant \<in> set (variants p)"
  shows "index_of board variant < lutSize (tupleLen p) \<and>
         lutSize (tupleLen p) = length (lut p)"
proof -
  from same_catalog_entry [OF assms(1,4)] obtain b where b: "b \<in> set BASE_PATTERNS"
    and p: "tupleLen p = length b" "variants p = allSymmetries b"
       "length (lut p) = lutSize (length b)"
    by blast
  from b base_patterns_range have "\<forall>i\<in>set b. i < 16" by blast
  with assms(5) p(2) have v: "length variant = length b" "\<forall>j\<in>set variant. j < 16"
    using variant_range [of variant b] by simp_all
  have "\<forall>i\<in>set variant. unat (board ! i) < NUM_VALUES"
  proof
    fix i assume "i \<in> set variant"
    with v(2) assms(2) have "board ! i \<in> set board" by (simp add: SIZE_def)
    with assms(3) show "unat (board ! i) < NUM_VALUES" by (auto simp: NUM_VALUES_def)
  qed
  then have "index_of board variant < NUM_VALUES ^ length variant"
    by (rule index_of_bound)
  with v(1) p show ?thesis by (simp add: lutSize_def)
qed

text \<open>
  C10. In every network state (any table contents under the constructor's catalog) and
  on every board of 16 cells with codes 0..15, the index computed for a variant of a
  pattern is below \<open>16 ^ tupleLen\<close>, which is the length of that pattern's table.
\<close>

theorem index_in_lut:
  assumes "same_catalog net"
    and "length board = SIZE * SIZE" and "\<forall>c\<in>set board. unat c \<le> 15"
    and "p \<in> set (patterns net)" and "variant \<in> set (variants p)"
  shows "index_of board variant < lutSize (tupleLen p) \<and>
         lutSize (tupleLen p) = length (lut p)"
  using assms by (rule index_within_table)

lemma same_catalog_new: "same_catalog new_NTupleNetwork"
  by (simp add: same_catalog_def new_NTupleNetwork_def new_pattern_def Let_def comp_def)

lemma length_fold_lut:
  "length (fold (\<lambda>variant l. l[g variant := h l variant]) vs l) = length l"
  by (induction vs arbitrary: l) simp_all

lemma length_lut_update_pattern [simp]:
  "length (lut (update_pattern ops board delta p)) = length (lut p)"
  by (simp add: update_pattern_def length_fold_lut)

lemma same_catalog_update: "same_catalog net \<Longrightarrow> same_catalog (update ops net board delta)"
  by (simp add: same_catalog_def update_def comp_def update_pattern_def length_fold_lut)

theorem allSymmetries_variants_witness:
  "distinct (allSymmetries line4_h) \<and> length (allSymmetries line4_h) = 8 \<and>
   allSymmetries line4_h = keep_first (map (applySymmetry line4_h) SYMMETRY_MAPS) \<and>
   hd (allSymmetries line4_h) = [0, 1, 2, 3]"
proof -
  have "\<forall>i\<in>set line4_h. i < SIZE * SIZE" by code_simp
  moreover have "length (allSymmetries line4_h) = 8" by code_simp
  moreover have "hd (allSymmetries line4_h) = [0, 1, 2, 3]" by code_simp
  ultimately show ?thesis
    using allSymmetries_variants [of line4_h] by simp
qed

theorem index_in_lut_witness:
  "index_of [1,2,3,4, 0,0,0,0, 0,0,0,0, 0,0,0,15] [0, 1, 2, 3] < lutSize 4 \<and>
   index_of [1,2,3,4, 0,0,0,0, 0,0,0,0, 0,0,0,15] [0, 1, 2, 3] = 4660 \<and>
   length (lut (new_pattern line4_h)) = 65536"
proof -
  let ?b = "[1,2,3,4, 0,0,0,0, 0,0,0,0, 0,0,0,15] :: board"
  have "new_pattern line4_h \<in> set (patterns new_NTupleNetwork)"
    by (simp add: new_NTupleNetwork_def BASE_PATTERNS_def)
  moreover have "[0, 1, 2, 3] \<in> set (allSymmetries line4_h)" by code_simp
  then have "[0, 1, 2, 3] \<in> set (variants (new_pattern line4_h))"
    by (simp add: new_pattern_def)
  moreover have "length ?b = SIZE * SIZE" "\<forall>c\<in>set ?b. unat c \<le> 15"
    by (simp_all add: SIZE_def)
  moreover have "index_of ?b [0, 1, 2, 3] = 4660" by code_simp
  moreover have "tupleLen (new_pattern line4_h) = 4" "lutSize 4 = 65536"
    by (simp_all add: new_pattern_def line4_h_def lutSize_def NUM_VALUES_def)
  ultimately show ?thesis
    using index_in_lut [OF same_catalog_new, of ?b "new_pattern line4_h" "[0, 1, 2, 3]"]
    by simp
qed

section \<open>Properties of move selection\<close>

lemma chanceNode_int:
  "chanceNode ops sz ev random board (int n) calls = chanceNode_at ops sz ev random n board calls"
  by (cases n) (simp_all add: chanceNode_def del: of_nat_Suc)

lemma chanceNode_unfold:
  "0 < depth \<Longrightarrow> chanceNode ops sz ev random board depth calls =
     chanceNode_body ops sz ev random
       (\<lambda>b. playerNode ops sz ev random b depth) board calls"
proof -
  assume d: "0 < depth"
  then obtain n where n: "nat depth = Suc n" by (cases "nat depth") simp_all
  with d have dn: "depth - 1 = int n" by simp
  have "chanceNode_at ops sz ev random n = (\<lambda>after. chanceNode ops sz ev random after (depth - 1))"
    unfolding dn by (simp add: chanceNode_int fun_eq_iff)
  moreover have "(\<lambda>b. playerNode ops sz ev random b depth) =
      playerNode_body ops sz ev (\<lambda>after. chanceNode ops sz ev random after (depth - 1))"
    by (simp add: fun_eq_iff playerNode_def)
  ultimately show ?thesis
    using d n by (simp add: chanceNode_def)
qed














section \<open>Properties of saving and loading\<close>

lemma from_le32_le32: "from_le32 (le32 w) = w"
  unfolding from_le32_def le32_def
proof (rule bit_word_eqI)
  fix n assume "n < LENGTH(32)"
  then have n: "n < 32" by simp
  consider "n < 8" | "8 \<le> n" "n < 16" | "16 \<le> n" "n < 24" | "24 \<le> n" by linarith
  then show "bit (ucast ([ucast w, ucast (drop_bit 8 w), ucast (drop_bit 16 w),
                 ucast (drop_bit 24 w)] ! 0 :: byte) OR
            push_bit 8 (ucast ([ucast w, ucast (drop_bit 8 w), ucast (drop_bit 16 w),
                 ucast (drop_bit 24 w)] ! 1 :: byte)) OR
            push_bit 16 (ucast ([ucast w, ucast (drop_bit 8 w), ucast (drop_bit 16 w),
                 ucast (drop_bit 24 w)] ! 2 :: byte)) OR
            push_bit 24 (ucast ([ucast w, ucast (drop_bit 8 w), ucast (drop_bit 16 w),
                 ucast (drop_bit 24 w)] ! 3 :: byte)) :: 32 word) n = bit w n"
    using n by cases (auto simp: bit_simps)
qed

lemma length_le32 [simp]: "length (le32 w) = 4"
  by (simp add: le32_def)

lemma length_lut_bytes [simp]: "length (lut_bytes l) = 4 * length l"
  by (induction l) (simp_all add: lut_bytes_def)

lemma length_binary_pattern: "length (binary_pattern tb) = 8 + 4 * length (snd tb)"
  by (simp add: binary_pattern_def)

lemma setInt32_fresh:
  "4 \<le> n \<Longrightarrow> setInt32 (pre @ replicate n 0) (length pre) v =
     (pre @ le32 (word_of_int v)) @ replicate (n - 4) 0"
  by (simp add: setInt32_def)

lemma set_bytes_fresh:
  "length src \<le> n \<Longrightarrow> set_bytes (pre @ replicate n 0) (length pre) src =
     (pre @ src) @ replicate (n - length src) 0"
  by (simp add: set_bytes_def)

lemma saveBinary_pattern_fresh:
  assumes "8 + 4 * length (lut p) \<le> n"
  shows "saveBinary_pattern p (pre @ replicate n 0, length pre) =
     ((pre @ binary_pattern (int (tupleLen p), lut p)) @ replicate (n - (8 + 4 * length (lut p))) 0,
      length (pre @ binary_pattern (int (tupleLen p), lut p)))"
proof -
  let ?a = "le32 (word_of_int (int (tupleLen p)))"
  let ?b = "le32 (word_of_int (int (length (lut p))))"
  let ?src = "lut_bytes (lut p)"
  have 1: "setInt32 (pre @ replicate n 0) (length pre) (int (tupleLen p)) =
        (pre @ ?a) @ replicate (n - 4) 0"
    using assms by (intro setInt32_fresh) simp
  have 2: "setInt32 ((pre @ ?a) @ replicate (n - 4) 0) (length pre + 4) (int (length (lut p))) =
        ((pre @ ?a) @ ?b) @ replicate (n - 4 - 4) 0"
    using assms setInt32_fresh [of "n - 4" "pre @ ?a" "int (length (lut p))"] by simp
  have 3: "set_bytes (((pre @ ?a) @ ?b) @ replicate (n - 4 - 4) 0) (length pre + 8) ?src =
        (((pre @ ?a) @ ?b) @ ?src) @ replicate (n - 4 - 4 - length ?src) 0"
    using assms set_bytes_fresh [of ?src "n - 4 - 4" "(pre @ ?a) @ ?b"] by simp
  show ?thesis
    unfolding saveBinary_pattern_def prod.case Let_def 1 2 3
    by (simp add: binary_pattern_def)
qed

lemma fold_saveBinary_pattern:
  "sum_list (map (\<lambda>p. 8 + 4 * length (lut p)) ps) \<le> n \<Longrightarrow>
   fold saveBinary_pattern ps (pre @ replicate n 0, length pre) =
     ((pre @ concat (map (\<lambda>p. binary_pattern (int (tupleLen p), lut p)) ps)) @
        replicate (n - sum_list (map (\<lambda>p. 8 + 4 * length (lut p)) ps)) 0,
      length (pre @ concat (map (\<lambda>p. binary_pattern (int (tupleLen p), lut p)) ps)))"
proof (induction ps arbitrary: pre n)
  case Nil
  then show ?case by simp
next
  case (Cons p ps)
  let ?k = "8 + 4 * length (lut p)"
  from Cons.prems have k: "?k \<le> n"
    and rest: "sum_list (map (\<lambda>p. 8 + 4 * length (lut p)) ps) \<le> n - ?k"
    by simp_all
  show ?case
    unfolding fold_simps saveBinary_pattern_fresh [OF k] Cons.IH [OF rest]
    by simp
qed

lemma fold_totalSize:
  "fold (\<lambda>p t. t + (8 + length (lut p) * 4)) ps a =
     a + sum_list (map (\<lambda>p. 8 + 4 * length (lut p)) ps)"
  by (induction ps arbitrary: a) (simp_all add: mult.commute)

theorem saveBinary_layout: "saveBinary net = binary_file 1 (tables_of net)"
proof -
  let ?ps = "patterns net"
  let ?s = "sum_list (map (\<lambda>p. 8 + 4 * length (lut p)) ?ps)"
  let ?h = "le32 (word_of_int 1) @ le32 (word_of_int (int (length ?ps)))"
  have total: "fold (\<lambda>p t. t + (8 + length (lut p) * 4)) ?ps 8 = 8 + ?s"
    by (rule fold_totalSize)
  have 1: "setInt32 (replicate (8 + ?s) 0) 0 1 = le32 (word_of_int 1) @ replicate (4 + ?s) 0"
    using setInt32_fresh [of "8 + ?s" "[]" 1] by simp
  have 2: "setInt32 (le32 (word_of_int 1) @ replicate (4 + ?s) 0) 4 (int (length ?ps)) =
        ?h @ replicate ?s 0"
    using setInt32_fresh [of "4 + ?s" "le32 (word_of_int 1)" "int (length ?ps)"] by simp
  have 3: "fold saveBinary_pattern ?ps (?h @ replicate ?s 0, 8) =
      ((?h @ concat (map (\<lambda>p. binary_pattern (int (tupleLen p), lut p)) ?ps)) @ replicate (?s - ?s) 0,
       length (?h @ concat (map (\<lambda>p. binary_pattern (int (tupleLen p), lut p)) ?ps)))"
    using fold_saveBinary_pattern [of ?ps ?s ?h] by simp
  show ?thesis
    unfolding saveBinary_def Let_def total 1 2 3
    by (simp add: binary_file_def tables_of_def comp_def)
qed

lemma sint_word_of_int_length:
  "n < 2 ^ 31 \<Longrightarrow> sint (word_of_int (int n) :: 32 word) = int n"
proof -
  assume "n < 2 ^ 31"
  then have "int n < 2 ^ 31" by (metis of_nat_less_iff of_nat_numeral of_nat_power)
  moreover have "- (2 ^ 31) \<le> int n" by (rule order_trans [of _ 0]) simp_all
  ultimately have "signed_take_bit 31 (int n) = int n"
    by (simp add: signed_take_bit_int_eq_self)
  then show ?thesis by (subst sint_sbintrunc') simp
qed

lemma sint_length: "n < 2 ^ 31 \<Longrightarrow> sint (word_of_nat n :: 32 word) = int n"
  using sint_word_of_int_length [of n] by simp

lemma getInt32_at: "getInt32 (pre @ le32 w @ post) (length pre) = Inr (sint w)"
  by (simp add: getInt32_def from_le32_le32)

lemma drop_lut_bytes: "drop (4 * k) (lut_bytes t) = lut_bytes (drop k t)"
proof (induction t arbitrary: k)
  case Nil
  then show ?case by (simp add: lut_bytes_def)
next
  case (Cons w t)
  show ?case
  proof (cases k)
    case 0
    then show ?thesis by simp
  next
    case (Suc m)
    with Cons [of m] show ?thesis by (simp add: lut_bytes_def)
  qed
qed

lemma drop_nth_Cons: "k < length t \<Longrightarrow> drop k t = t ! k # drop (Suc k) t"
  by (rule Cons_nth_drop_Suc [symmetric])

lemma drop_lut_bytes_nth: "k < length (t :: 32 word list) \<Longrightarrow> drop (4 * k) (lut_bytes t) = le32 (t ! k) @ lut_bytes (drop (Suc k) t)"
proof -
  assume k: "k < length t"
  have "drop (4 * k) (lut_bytes t) = lut_bytes (drop k t)" by (rule drop_lut_bytes)
  also have "\<dots> = lut_bytes (t ! k # drop (Suc k) t)" using drop_nth_Cons [OF k] by simp
  also have "\<dots> = le32 (t ! k) @ lut_bytes (drop (Suc k) t)" by (simp add: lut_bytes_def)
  finally show ?thesis .
qed

lemma drop_in_lut_bytes: "k < length (t :: 32 word list) \<Longrightarrow> drop (length pre + 4 * k) (pre @ lut_bytes t @ post) =
          drop (4 * k) (lut_bytes t) @ post"
  by simp

lemma take_le32_at: "k < length (t :: 32 word list) \<Longrightarrow>
   take 4 (drop (length pre + 4 * k) (pre @ lut_bytes t @ post)) = le32 (t ! k)"
  by (simp only: drop_in_lut_bytes drop_lut_bytes_nth) simp

lemma float32_view_at:
  "float32_view (pre @ lut_bytes t @ post) (length pre) (length t) = Inr t"
proof -
  let ?f = "\<lambda>k. from_le32 (take 4 (drop (length pre + 4 * k) (pre @ lut_bytes t @ post)))"
  have "map ?f [0..<length t] = t"
  proof (rule nth_equalityI)
    show "length (map ?f [0..<length t]) = length t" by simp
  next
    fix i assume "i < length (map ?f [0..<length t])"
    then have i: "i < length t" by simp
    then have "map ?f [0..<length t] ! i = ?f (0 + i)"
      by (intro nth_map_upt) simp
    also have "\<dots> = from_le32 (le32 (t ! i))"
      by (simp only: add_0 take_le32_at [OF i])
    finally show "map ?f [0..<length t] ! i = t ! i"
      by (simp only: from_le32_le32)
  qed
  moreover have "length pre + 4 * length t \<le> length (pre @ lut_bytes t @ post)"
    by simp
  ultimately show ?thesis
    unfolding float32_view_def by (simp only: if_True)
qed

lemma loadBinary_loop_spec:
  assumes "length rest = length tabs" and "\<forall>tb\<in>set tabs. length (snd tb) < 2 ^ 31"
  shows "loadBinary_loop (pre @ concat (map binary_pattern tabs)) (length done + length rest)
           (length done) (length pre) (done @ rest) =
         (case apply_tables (length done) rest (map snd tabs) of
            (r, ps) \<Rightarrow> (r, done @ ps))"
  using assms
proof (induction tabs arbitrary: pre "done" rest)
  case Nil
  then show ?case by (subst loadBinary_loop.simps) simp
next
  case (Cons tb tabs)
  from Cons.prems(1) obtain p rest' where rest: "rest = p # rest'"
    and len': "length rest' = length tabs"
    by (cases rest) simp_all
  define buf where "buf = pre @ concat (map binary_pattern (tb # tabs))"
  let ?tail = "concat (map binary_pattern tabs)"
  let ?a = "le32 (word_of_int (fst tb) :: 32 word)"
  let ?b = "le32 (word_of_int (int (length (snd tb))) :: 32 word)"
  have buf1: "buf = pre @ ?a @ (?b @ lut_bytes (snd tb) @ ?tail)"
    by (simp add: buf_def binary_pattern_def)
  have buf2: "buf = (pre @ ?a) @ ?b @ (lut_bytes (snd tb) @ ?tail)"
    by (simp add: buf_def binary_pattern_def)
  have buf3: "buf = (pre @ ?a @ ?b) @ lut_bytes (snd tb) @ ?tail"
    by (simp add: buf_def binary_pattern_def)
  have buf4: "buf = (pre @ binary_pattern tb) @ ?tail"
    by (simp add: buf_def)
  have g1: "getInt32 buf (length pre) = Inr (sint (word_of_int (fst tb) :: 32 word))"
    unfolding buf1 by (rule getInt32_at)
  have "getInt32 buf (length (pre @ ?a)) = Inr (sint (word_of_int (int (length (snd tb))) :: 32 word))"
    unfolding buf2 by (rule getInt32_at)
  moreover from Cons.prems(2) have "length (snd tb) < 2 ^ 31" by simp
  ultimately have g2: "getInt32 buf (length pre + 4) = Inr (int (length (snd tb)))"
    by (simp add: sint_length)
  have "float32_view buf (length (pre @ ?a @ ?b)) (length (snd tb)) = Inr (snd tb)"
    unfolding buf3 by (rule float32_view_at)
  then have g3: "float32_view buf (length pre + 8) (length (snd tb)) = Inr (snd tb)"
    by simp
  have g3': "float32_view buf (length pre + 8) (length (lut p)) = Inr (snd tb)"
    if "length (snd tb) = length (lut p)"
    using g3 that by simp
  have i: "length done < length done + length rest" using rest by simp
  have nth: "(done @ rest) ! length done = p" using rest by simp
  have "loadBinary_loop buf (length done + length rest) (length done) (length pre) (done @ rest) =
         (case apply_tables (length done) rest (map snd (tb # tabs)) of
            (r, ps) \<Rightarrow> (r, done @ ps))"
  proof (cases "length (snd tb) = length (lut p)")
    case False
    then have "loadBinary_loop buf (length done + length rest) (length done) (length pre)
        (done @ rest) = (Some (LutSizeMismatch (length done)), done @ rest)"
      using i by (subst loadBinary_loop.simps) (simp add: g1 g2 nth)
    with False rest show ?thesis by simp
  next
    case True
    have upd: "(done @ rest)[length done := p\<lparr> lut := snd tb \<rparr>] =
        (done @ [p\<lparr> lut := snd tb \<rparr>]) @ rest'"
      using rest by simp
    have off: "length pre + 8 + length (snd tb) * 4 = length (pre @ binary_pattern tb)"
      by (simp add: length_binary_pattern)
    have cnt: "length done + length rest = length (done @ [p\<lparr> lut := snd tb \<rparr>]) + length rest'"
      using rest by simp
    have "loadBinary_loop buf (length done + length rest) (length done) (length pre)
        (done @ rest) =
      loadBinary_loop buf (length done + length rest) (length done + 1)
        (length pre + 8 + length (snd tb) * 4) ((done @ rest)[length done := p\<lparr> lut := snd tb \<rparr>])"
      using i True by (subst loadBinary_loop.simps) (simp add: g1 g2 g3' nth)
    also have "\<dots> = loadBinary_loop ((pre @ binary_pattern tb) @ ?tail)
        (length (done @ [p\<lparr> lut := snd tb \<rparr>]) + length rest')
        (length (done @ [p\<lparr> lut := snd tb \<rparr>])) (length (pre @ binary_pattern tb))
        ((done @ [p\<lparr> lut := snd tb \<rparr>]) @ rest')"
      unfolding upd off cnt buf4 by simp
    also have "\<dots> = (case apply_tables (length (done @ [p\<lparr> lut := snd tb \<rparr>])) rest' (map snd tabs) of
            (r, ps) \<Rightarrow> (r, (done @ [p\<lparr> lut := snd tb \<rparr>]) @ ps))"
      using Cons.prems(2) by (intro Cons.IH [OF len']) simp
    finally show ?thesis
      using True rest by (simp add: case_prod_beta)
  qed
  then show ?case unfolding buf_def .
qed

lemma loadBinary_binary_file:
  assumes "length tables < 2 ^ 31" and "\<forall>tb\<in>set tables. length (snd tb) < 2 ^ 31"
  shows "loadBinary net (binary_file v tables) =
     (if length tables \<noteq> length (patterns net) then (Some PatternCountMismatch, net)
      else (case apply_tables 0 (patterns net) (map snd tables) of
              (r, ps) \<Rightarrow> (r, net\<lparr> patterns := ps \<rparr>)))"
proof -
  let ?buf = "binary_file v tables"
  let ?h = "le32 (word_of_int v :: 32 word) @ le32 (word_of_int (int (length tables)) :: 32 word)"
  have g0: "getInt32 ?buf 0 = Inr (sint (word_of_int v :: 32 word))"
    using getInt32_at [of "[]"] by (simp add: binary_file_def)
  have "getInt32 ?buf (length (le32 (word_of_int v :: 32 word))) =
      Inr (sint (word_of_int (int (length tables)) :: 32 word))"
    unfolding binary_file_def by (rule getInt32_at)
  with assms(1) have g4: "getInt32 ?buf 4 = Inr (int (length tables))"
    by (simp add: sint_length)
  show ?thesis
  proof (cases "length tables = length (patterns net)")
    case False
    then show ?thesis by (simp add: loadBinary_def g0 g4)
  next
    case True
    have "loadBinary_loop (?h @ concat (map binary_pattern tables))
            (length ([] :: pattern_entry list) + length (patterns net)) (length ([] :: pattern_entry list))
            (length ?h) ([] @ patterns net) =
          (case apply_tables (length ([] :: pattern_entry list)) (patterns net) (map snd tables) of
            (r, ps) \<Rightarrow> (r, [] @ ps))"
      using True assms(2) by (intro loadBinary_loop_spec) simp_all
    then have "loadBinary_loop ?buf (length (patterns net)) 0 8 (patterns net) =
        apply_tables 0 (patterns net) (map snd tables)"
      by (simp add: binary_file_def)
    with True show ?thesis by (simp add: loadBinary_def g0 g4)
  qed
qed

lemma apply_tables_ok:
  "length ps = length ts \<Longrightarrow> first_mismatch (map (\<lambda>p. length (lut p)) ps) (map length ts) = None \<Longrightarrow>
   apply_tables i ps ts = (None, with_luts ps ts)"
proof (induction i ps ts rule: apply_tables.induct)
  case (1 i p ps t ts)
  then show ?case by (auto simp: with_luts_def split: if_splits)
qed (simp_all add: with_luts_def)

lemma apply_tables_mismatch:
  "length ps = length ts \<Longrightarrow>
   first_mismatch (map (\<lambda>p. length (lut p)) ps) (map length ts) = Some k \<Longrightarrow>
   apply_tables i ps ts =
     (Some (LutSizeMismatch (i + k)), with_luts (take k ps) (take k ts) @ drop k ps)"
proof (induction i ps ts arbitrary: k rule: apply_tables.induct)
  case (1 i p ps t ts)
  show ?case
  proof (cases "length t = length (lut p)")
    case False
    with "1.prems" show ?thesis by (auto simp: with_luts_def)
  next
    case True
    with "1.prems" obtain k' where k': "k = Suc k'"
      "first_mismatch (map (\<lambda>p. length (lut p)) ps) (map length ts) = Some k'"
      by auto
    with "1.IH" [of k'] "1.prems" True show ?thesis
      by (simp add: with_luts_def)
  qed
qed simp_all

lemma load_loop_spec:
  "load_loop ops data (length done) (done @ rest) =
     (case apply_saved ops (length done) rest (drop (length done) (wd_patterns data)) of
        (r, ps) \<Rightarrow> (r, done @ ps))"
proof (induction rest arbitrary: "done")
  case Nil
  show ?case by (subst load_loop.simps) simp
next
  case (Cons p rest)
  let ?i = "length done"
  have nth: "(done @ p # rest) ! ?i = p" by simp
  show ?case
  proof (cases "length (wd_patterns data) \<le> ?i")
    case True
    then show ?thesis by (subst load_loop.simps) simp
  next
    case False
    then have dr: "drop ?i (wd_patterns data) =
        wd_patterns data ! ?i # drop (Suc ?i) (wd_patterns data)"
      by (simp add: Cons_nth_drop_Suc)
    let ?d = "wd_patterns data ! ?i"
    show ?thesis
    proof (cases "sp_lutSize ?d \<noteq> int (length (lut p))")
      case True
      with False show ?thesis
        by (subst load_loop.simps) (simp add: dr Let_def)
    next
      case size: False
      show ?thesis
      proof (cases "typed_array_set ops (lut p) (sp_lut ?d)")
        case (Inl e)
        with False size show ?thesis
          by (subst load_loop.simps) (simp add: dr Let_def)
      next
        case (Inr l)
        have "load_loop ops data ?i (done @ p # rest) =
            load_loop ops data (length (done @ [p\<lparr> lut := l \<rparr>])) ((done @ [p\<lparr> lut := l \<rparr>]) @ rest)"
          using False size Inr by (subst load_loop.simps) (simp add: Let_def)
        also have "\<dots> = (case apply_saved ops (length (done @ [p\<lparr> lut := l \<rparr>])) rest
              (drop (length (done @ [p\<lparr> lut := l \<rparr>])) (wd_patterns data)) of
            (r, ps) \<Rightarrow> (r, (done @ [p\<lparr> lut := l \<rparr>]) @ ps))"
          by (rule Cons.IH)
        finally show ?thesis
          using size Inr by (simp add: dr case_prod_beta)
      qed
    qed
  qed
qed

lemma load_spec:
  "load ops net data =
     (if wd_numPatterns data \<noteq> int (length (patterns net)) then (Some PatternCountMismatch, net)
      else (case apply_saved ops 0 (patterns net) (wd_patterns data) of
              (r, ps) \<Rightarrow> (r, net\<lparr> patterns := ps \<rparr>)))"
  using load_loop_spec [of ops data "[]" "patterns net"]
  by (simp add: load_def)

lemma typed_array_set_full:
  "length src = length l \<Longrightarrow> typed_array_set ops l src = Inr (map (\<lambda>x. f32_write ops (to_number x)) src)"
  by (simp add: typed_array_set_def)

lemma apply_saved_ok:
  "length ps = length ds \<Longrightarrow> \<forall>d\<in>set ds. int (length (sp_lut d)) = sp_lutSize d \<Longrightarrow>
   first_mismatch (map (\<lambda>p. length (lut p)) ps) (map (\<lambda>d. length (sp_lut d)) ds) = None \<Longrightarrow>
   apply_saved ops i ps ds = (None, with_luts ps (map (\<lambda>d. map (\<lambda>x. f32_write ops (to_number x)) (sp_lut d)) ds))"
proof (induction ops i ps ds rule: apply_saved.induct)
  case (1 ops i p ps d ds)
  then show ?case
    by (auto simp: with_luts_def typed_array_set_full split: if_splits)
qed (simp_all add: with_luts_def)

lemma apply_saved_mismatch:
  "length ps = length ds \<Longrightarrow> \<forall>d\<in>set ds. int (length (sp_lut d)) = sp_lutSize d \<Longrightarrow>
   first_mismatch (map (\<lambda>p. length (lut p)) ps) (map (\<lambda>d. length (sp_lut d)) ds) = Some k \<Longrightarrow>
   apply_saved ops i ps ds =
     (Some (LutSizeMismatch (i + k)),
      with_luts (take k ps) (map (\<lambda>d. map (\<lambda>x. f32_write ops (to_number x)) (sp_lut d)) (take k ds)) @ drop k ps)"
proof (induction ops i ps ds arbitrary: k rule: apply_saved.induct)
  case (1 ops i p ps d ds)
  show ?case
  proof (cases "length (sp_lut d) = length (lut p)")
    case False
    with "1.prems" show ?thesis by (auto simp: with_luts_def)
  next
    case True
    with "1.prems" obtain k' where k': "k = Suc k'"
      "first_mismatch (map (\<lambda>p. length (lut p)) ps) (map (\<lambda>d. length (sp_lut d)) ds) = Some k'"
      by auto
    from True "1.prems" have sz: "sp_lutSize d = int (length (lut p))" by simp
    have ts: "typed_array_set ops (lut p) (sp_lut d) = Inr (map (\<lambda>x. f32_write ops (to_number x)) (sp_lut d))"
      using True by (rule typed_array_set_full)
    from "1.IH" [OF _ ts, of k'] sz k' "1.prems" show ?thesis
      by (simp add: with_luts_def ts)
  qed
qed simp_all

section \<open>Networks with the constructor's catalog\<close>

lemma evaluate_patterns:
  "patterns net' = patterns net \<Longrightarrow> evaluate ops net' board = evaluate ops net board"
  by (simp add: evaluate_def)

lemma same_catalog_count: "same_catalog net \<Longrightarrow> length (patterns net) = length BASE_PATTERNS"
proof -
  assume "same_catalog net"
  then have "length (map (\<lambda>p. (tupleLen p, variants p, length (lut p))) (patterns net)) =
     length (map (\<lambda>b. (length b, allSymmetries b, lutSize (length b))) BASE_PATTERNS)"
    unfolding same_catalog_def by (rule arg_cong)
  then show ?thesis by (simp only: length_map)
qed

lemma same_catalog_nth:
  assumes "same_catalog net" "i < length (patterns net)"
  shows "tupleLen (patterns net ! i) = length (BASE_PATTERNS ! i) \<and>
         variants (patterns net ! i) = allSymmetries (BASE_PATTERNS ! i) \<and>
         length (lut (patterns net ! i)) = lutSize (length (BASE_PATTERNS ! i))"
proof -
  let ?f = "\<lambda>p. (tupleLen p, variants p, length (lut p))"
  let ?g = "\<lambda>b. (length b, allSymmetries b, lutSize (length b))"
  from assms(1) have "map ?f (patterns net) ! i = map ?g BASE_PATTERNS ! i"
    unfolding same_catalog_def by (rule arg_cong)
  moreover have "map ?f (patterns net) ! i = ?f (patterns net ! i)"
    using assms(2) by (rule nth_map)
  moreover have "map ?g BASE_PATTERNS ! i = ?g (BASE_PATTERNS ! i)"
    using assms(2) same_catalog_count [OF assms(1)] by (intro nth_map) simp
  ultimately have "?f (patterns net ! i) = ?g (BASE_PATTERNS ! i)"
    by (simp only:)
  then show ?thesis by (simp only: prod.inject)
qed

lemma same_catalog_length: "same_catalog net \<Longrightarrow> length (patterns net) = 7"
  using same_catalog_count [of net] by (simp add: BASE_PATTERNS_def)

lemma base_pattern_lengths: "\<forall>b\<in>set BASE_PATTERNS. length b \<le> 6"
  by (simp add: BASE_PATTERNS_def rect_2x3_def rect_3x2_def corner_L_def line4_h_def
      sq2x2_def stair4_def lshape4_def)

lemma base_lut_sizes: "\<forall>b\<in>set BASE_PATTERNS. lutSize (length b) < 2 ^ 31"
proof
  fix b assume "b \<in> set BASE_PATTERNS"
  with base_pattern_lengths have "length b \<le> 6" by blast
  then have "(16::nat) ^ length b \<le> 16 ^ 6" by (intro power_increasing) simp_all
  also have "\<dots> < 2 ^ 31" by simp
  finally show "lutSize (length b) < 2 ^ 31" by (simp add: lutSize_def NUM_VALUES_def)
qed

lemma same_catalog_lut_bound:
  assumes "same_catalog net" "p \<in> set (patterns net)"
  shows "length (lut p) < 2 ^ 31"
  using same_catalog_entry [OF assms] base_lut_sizes by auto

lemma first_mismatch_same: "first_mismatch xs xs = None"
  by (induction xs) simp_all

lemma with_luts_same_catalog:
  assumes "same_catalog net" "same_catalog net'"
  shows "with_luts (patterns net') (map lut (patterns net)) = patterns net"
proof (rule nth_equalityI)
  show "length (with_luts (patterns net') (map lut (patterns net))) = length (patterns net)"
    using assms by (simp add: with_luts_def same_catalog_length)
next
  fix i assume "i < length (with_luts (patterns net') (map lut (patterns net)))"
  then have i: "i < length (patterns net)" "i < length (patterns net')"
    using assms by (simp_all add: with_luts_def same_catalog_length)
  from same_catalog_nth [OF assms(1) i(1)] same_catalog_nth [OF assms(2) i(2)]
  have "tupleLen (patterns net' ! i) = tupleLen (patterns net ! i)"
    "variants (patterns net' ! i) = variants (patterns net ! i)"
    by simp_all
  then have "(patterns net' ! i)\<lparr> lut := lut (patterns net ! i) \<rparr> = patterns net ! i"
    by (intro pattern_entry.equality) simp_all
  with i show "with_luts (patterns net') (map lut (patterns net)) ! i = patterns net ! i"
    by (simp add: with_luts_def)
qed

lemma same_catalog_lut_lengths:
  assumes "same_catalog net" "same_catalog net'"
  shows "map (\<lambda>p. length (lut p)) (patterns net') = map (\<lambda>p. length (lut p)) (patterns net)"
proof -
  have "map (\<lambda>p. length (lut p)) (patterns n) = map (\<lambda>b. lutSize (length b)) BASE_PATTERNS"
    if "same_catalog n" for n
  proof -
    from that have "map (\<lambda>t. snd (snd t)) (map (\<lambda>p. (tupleLen p, variants p, length (lut p))) (patterns n)) =
       map (\<lambda>t. snd (snd t)) (map (\<lambda>b. (length b, allSymmetries b, lutSize (length b))) BASE_PATTERNS)"
      by (simp add: same_catalog_def)
    then show ?thesis by (simp add: comp_def)
  qed
  from this [OF assms(1)] this [OF assms(2)] show ?thesis by simp
qed

lemma loadBinary_saveBinary:
  assumes "same_catalog net" "same_catalog net'"
  shows "loadBinary net' (saveBinary net) = (None, net'\<lparr> patterns := patterns net \<rparr>)"
proof -
  have len: "length (tables_of net) = length (patterns net')"
    using assms by (simp add: tables_of_def same_catalog_length)
  have b1: "length (tables_of net) < 2 ^ 31"
    using assms(1) by (simp add: tables_of_def same_catalog_length)
  have b2: "\<forall>tb\<in>set (tables_of net). length (snd tb) < 2 ^ 31"
    using same_catalog_lut_bound [OF assms(1)] by (auto simp: tables_of_def)
  have snd_tabs: "map snd (tables_of net) = map lut (patterns net)"
    by (simp add: tables_of_def comp_def)
  have "first_mismatch (map (\<lambda>p. length (lut p)) (patterns net'))
          (map length (map lut (patterns net))) = None"
    using same_catalog_lut_lengths [OF assms] by (simp add: comp_def first_mismatch_same)
  then have "apply_tables 0 (patterns net') (map lut (patterns net)) =
      (None, with_luts (patterns net') (map lut (patterns net)))"
    using len by (intro apply_tables_ok) (simp_all add: tables_of_def)
  then show ?thesis
    unfolding saveBinary_layout loadBinary_binary_file [OF b1 b2] snd_tabs
    using len by (simp add: with_luts_same_catalog [OF assms])
qed

section \<open>Loading a mismatched weight file\<close>

lemma first_mismatch_differs:
  "length xs = length ys \<Longrightarrow> xs \<noteq> ys \<Longrightarrow> \<exists>k. k < length xs \<and> first_mismatch xs ys = Some k"
  by (induction xs ys rule: list_induct2) auto

lemma loadBinary_mismatch:
  assumes "length tables < 2 ^ 31" and "\<forall>tb\<in>set tables. length (snd tb) < 2 ^ 31"
    and "length tables = length (patterns net)"
    and "first_mismatch (map (\<lambda>p. length (lut p)) (patterns net)) (map length (map snd tables)) = Some k"
  shows "loadBinary net (binary_file v tables) =
     (Some (LutSizeMismatch k),
      net\<lparr> patterns := with_luts (take k (patterns net)) (take k (map snd tables)) @
                         drop k (patterns net) \<rparr>)"
proof -
  have "apply_tables 0 (patterns net) (map snd tables) =
     (Some (LutSizeMismatch (0 + k)),
      with_luts (take k (patterns net)) (take k (map snd tables)) @ drop k (patterns net))"
    using assms(3,4) by (intro apply_tables_mismatch) simp_all
  then show ?thesis
    unfolding loadBinary_binary_file [OF assms(1,2)] using assms(3) by simp
qed

lemma load_mismatch:
  assumes "\<forall>d\<in>set (wd_patterns data). int (length (sp_lut d)) = sp_lutSize d"
    and "wd_numPatterns data = int (length (patterns net))"
    and "length (wd_patterns data) = length (patterns net)"
    and "first_mismatch (map (\<lambda>p. length (lut p)) (patterns net))
           (map (\<lambda>d. length (sp_lut d)) (wd_patterns data)) = Some k"
  shows "load ops net data =
     (Some (LutSizeMismatch k),
      net\<lparr> patterns := with_luts (take k (patterns net))
                           (map (\<lambda>d. map (\<lambda>x. f32_write ops (to_number x)) (sp_lut d)) (take k (wd_patterns data))) @
                         drop k (patterns net) \<rparr>)"
proof -
  have "apply_saved ops 0 (patterns net) (wd_patterns data) =
     (Some (LutSizeMismatch (0 + k)),
      with_luts (take k (patterns net))
        (map (\<lambda>d. map (\<lambda>x. f32_write ops (to_number x)) (sp_lut d)) (take k (wd_patterns data))) @
      drop k (patterns net))"
    using assms(3,1,4) by (intro apply_saved_mismatch) simp_all
  then show ?thesis
    unfolding load_spec using assms(2) by simp
qed

lemma lutSize_pos: "0 < lutSize n"
  by (simp add: lutSize_def NUM_VALUES_def)

lemma lutSize_6_bound: "lutSize 6 < 2 ^ 31"
  by (simp add: lutSize_def NUM_VALUES_def)

lemma new_table_lengths:
  "map (\<lambda>p. length (lut p)) (patterns new_NTupleNetwork) =
     [lutSize 6, lutSize 6, lutSize 6, lutSize 4, lutSize 4, lutSize 4, lutSize 4]"
  by (simp add: new_NTupleNetwork_def new_pattern_def BASE_PATTERNS_def rect_2x3_def
      rect_3x2_def corner_L_def line4_h_def sq2x2_def stair4_def lshape4_def
      eval_nat_numeral)

lemma new_first_table: "lut (hd (patterns new_NTupleNetwork)) = replicate (lutSize 6) 0"
  by (simp add: new_NTupleNetwork_def new_pattern_def BASE_PATTERNS_def rect_2x3_def
      eval_nat_numeral)

lemma new_patterns_nonempty: "patterns new_NTupleNetwork \<noteq> []"
  by (simp add: new_NTupleNetwork_def BASE_PATTERNS_def)

lemma float32_bits_one: "float32_bits 1 = 0x3F800000"
  by code_simp

lemma loadBinary_mismatched_tables:
  "loadBinary new_NTupleNetwork (binary_file 1 mismatched_tables) =
     (Some (LutSizeMismatch 1),
      new_NTupleNetwork\<lparr> patterns :=
        (hd (patterns new_NTupleNetwork))\<lparr> lut := replicate (lutSize 6) 0x3F800000 \<rparr> #
        tl (patterns new_NTupleNetwork) \<rparr>)"
proof -
  have len: "length (patterns new_NTupleNetwork) = 7"
    using same_catalog_new by (rule same_catalog_length)
  then obtain p ps where ps: "patterns new_NTupleNetwork = p # ps"
    by (cases "patterns new_NTupleNetwork") simp_all
  have "first_mismatch (map (\<lambda>p. length (lut p)) (patterns new_NTupleNetwork))
          (map length (map snd mismatched_tables)) = Some 1"
    using lutSize_pos [of 6] by (simp add: new_table_lengths mismatched_tables_def)
  moreover have "length mismatched_tables < 2 ^ 31"
    "\<forall>tb\<in>set mismatched_tables. length (snd tb) < 2 ^ 31"
    "length mismatched_tables = length (patterns new_NTupleNetwork)"
    using lutSize_6_bound by (simp_all add: mismatched_tables_def len)
  ultimately have "loadBinary new_NTupleNetwork (binary_file 1 mismatched_tables) =
     (Some (LutSizeMismatch 1),
      new_NTupleNetwork\<lparr> patterns :=
        with_luts (take 1 (patterns new_NTupleNetwork)) (take 1 (map snd mismatched_tables)) @
        drop 1 (patterns new_NTupleNetwork) \<rparr>)"
    by (intro loadBinary_mismatch)
  then show ?thesis
    by (simp add: ps with_luts_def mismatched_tables_def)
qed

lemma load_mismatched_data:
  "load ieee_ops new_NTupleNetwork mismatched_data =
     (Some (LutSizeMismatch 1),
      new_NTupleNetwork\<lparr> patterns :=
        (hd (patterns new_NTupleNetwork))\<lparr> lut := replicate (lutSize 6) 0x3F800000 \<rparr> #
        tl (patterns new_NTupleNetwork) \<rparr>)"
proof -
  have len: "length (patterns new_NTupleNetwork) = 7"
    using same_catalog_new by (rule same_catalog_length)
  then obtain p ps where ps: "patterns new_NTupleNetwork = p # ps"
    by (cases "patterns new_NTupleNetwork") simp_all
  have "first_mismatch (map (\<lambda>p. length (lut p)) (patterns new_NTupleNetwork))
          (map (\<lambda>d. length (sp_lut d)) (wd_patterns mismatched_data)) = Some 1"
    using lutSize_pos [of 6] by (simp add: new_table_lengths mismatched_data_def Let_def)
  moreover have "\<forall>d\<in>set (wd_patterns mismatched_data). int (length (sp_lut d)) = sp_lutSize d"
    "wd_numPatterns mismatched_data = int (length (patterns new_NTupleNetwork))"
    "length (wd_patterns mismatched_data) = length (patterns new_NTupleNetwork)"
    by (simp_all add: mismatched_data_def len Let_def)
  ultimately have "load ieee_ops new_NTupleNetwork mismatched_data =
     (Some (LutSizeMismatch 1),
      new_NTupleNetwork\<lparr> patterns :=
        with_luts (take 1 (patterns new_NTupleNetwork))
          (map (\<lambda>d. map (\<lambda>x. f32_write ieee_ops (to_number x)) (sp_lut d)) (take 1 (wd_patterns mismatched_data))) @
        drop 1 (patterns new_NTupleNetwork) \<rparr>)"
    by (intro load_mismatch)
  then show ?thesis
    by (simp add: ps with_luts_def mismatched_data_def Let_def ieee_ops_def float32_bits_one
        to_number_def float32_store_def)
qed

text \<open>
  C2, as stated, fails for both loaders: the file has the right pattern count and a
  wrong table length at pattern 1, the call throws there, and the table of pattern 0
  has already been replaced (every cell is 1.0 instead of 0).
\<close>

theorem mismatched_file_partially_applied:
  "fst (loadBinary new_NTupleNetwork (binary_file 1 mismatched_tables)) = Some (LutSizeMismatch 1) \<and>
   lut (hd (patterns (snd (loadBinary new_NTupleNetwork (binary_file 1 mismatched_tables))))) =
     replicate (lutSize 6) 0x3F800000 \<and>
   fst (load ieee_ops new_NTupleNetwork mismatched_data) = Some (LutSizeMismatch 1) \<and>
   lut (hd (patterns (snd (load ieee_ops new_NTupleNetwork mismatched_data)))) =
     replicate (lutSize 6) 0x3F800000 \<and>
   lut (hd (patterns new_NTupleNetwork)) = replicate (lutSize 6) 0 \<and>
   replicate (lutSize 6) 0x3F800000 \<noteq> replicate (lutSize 6) (0 :: 32 word)"
  using lutSize_pos [of 6]
  by (simp add: loadBinary_mismatched_tables load_mismatched_data new_first_table
      replicate_eq_replicate)

text \<open>
  C2, amended. A file whose pattern count differs from the network's makes both loaders
  throw with the network unchanged. A file with the right count in which some table
  length differs makes them throw at the first such pattern \<open>k\<close>; the tables of the
  patterns before \<open>k\<close> have then been replaced by the file's, and the patterns from \<open>k\<close>
  on are unchanged. The binary file is any file of the documented layout (with counts
  that fit a signed 32-bit integer); the text data is any data whose \<open>numPatterns\<close> and
  \<open>lutSize\<close> fields are the lengths of the arrays beside them.
\<close>

theorem load_mismatch_outcome:
  assumes "length tables < 2 ^ 31" and "\<forall>tb\<in>set tables. length (snd tb) < 2 ^ 31"
    and "wd_numPatterns data = int (length (wd_patterns data))"
    and "\<forall>d\<in>set (wd_patterns data). int (length (sp_lut d)) = sp_lutSize d"
  shows "(length tables \<noteq> length (patterns net) \<longrightarrow>
            loadBinary net (binary_file v tables) = (Some PatternCountMismatch, net)) \<and>
         (length tables = length (patterns net) \<and>
          map (\<lambda>p. length (lut p)) (patterns net) \<noteq> map length (map snd tables) \<longrightarrow>
            (\<exists>k. k < length (patterns net) \<and>
               first_mismatch (map (\<lambda>p. length (lut p)) (patterns net))
                 (map length (map snd tables)) = Some k \<and>
               loadBinary net (binary_file v tables) =
                 (Some (LutSizeMismatch k),
                  net\<lparr> patterns := with_luts (take k (patterns net)) (take k (map snd tables)) @
                                     drop k (patterns net) \<rparr>))) \<and>
         (length (wd_patterns data) \<noteq> length (patterns net) \<longrightarrow>
            load ops net data = (Some PatternCountMismatch, net)) \<and>
         (length (wd_patterns data) = length (patterns net) \<and>
          map (\<lambda>p. length (lut p)) (patterns net) \<noteq> map (\<lambda>d. length (sp_lut d)) (wd_patterns data) \<longrightarrow>
            (\<exists>k. k < length (patterns net) \<and>
               first_mismatch (map (\<lambda>p. length (lut p)) (patterns net))
                 (map (\<lambda>d. length (sp_lut d)) (wd_patterns data)) = Some k \<and>
               load ops net data =
                 (Some (LutSizeMismatch k),
                  net\<lparr> patterns :=
                    with_luts (take k (patterns net))
                      (map (\<lambda>d. map (\<lambda>x. f32_write ops (to_number x)) (sp_lut d)) (take k (wd_patterns data))) @
                    drop k (patterns net) \<rparr>)))"
proof (intro conjI impI)
  assume "length tables \<noteq> length (patterns net)"
  then show "loadBinary net (binary_file v tables) = (Some PatternCountMismatch, net)"
    unfolding loadBinary_binary_file [OF assms(1,2)] by simp
next
  assume a: "length tables = length (patterns net) \<and>
    map (\<lambda>p. length (lut p)) (patterns net) \<noteq> map length (map snd tables)"
  then obtain k where k: "k < length (patterns net)"
    "first_mismatch (map (\<lambda>p. length (lut p)) (patterns net)) (map length (map snd tables)) = Some k"
    using first_mismatch_differs [of "map (\<lambda>p. length (lut p)) (patterns net)"
        "map length (map snd tables)"] by auto
  from a loadBinary_mismatch [OF assms(1,2) _ k(2), of v] k
  show "\<exists>k. k < length (patterns net) \<and>
     first_mismatch (map (\<lambda>p. length (lut p)) (patterns net)) (map length (map snd tables)) = Some k \<and>
     loadBinary net (binary_file v tables) =
       (Some (LutSizeMismatch k),
        net\<lparr> patterns := with_luts (take k (patterns net)) (take k (map snd tables)) @
                           drop k (patterns net) \<rparr>)"
    by blast
next
  assume "length (wd_patterns data) \<noteq> length (patterns net)"
  with assms(3) show "load ops net data = (Some PatternCountMismatch, net)"
    by (simp add: load_spec)
next
  assume a: "length (wd_patterns data) = length (patterns net) \<and>
    map (\<lambda>p. length (lut p)) (patterns net) \<noteq> map (\<lambda>d. length (sp_lut d)) (wd_patterns data)"
  then obtain k where k: "k < length (patterns net)"
    "first_mismatch (map (\<lambda>p. length (lut p)) (patterns net))
       (map (\<lambda>d. length (sp_lut d)) (wd_patterns data)) = Some k"
    using first_mismatch_differs [of "map (\<lambda>p. length (lut p)) (patterns net)"
        "map (\<lambda>d. length (sp_lut d)) (wd_patterns data)"] by auto
  from a assms(3) have "wd_numPatterns data = int (length (patterns net))" by simp
  from load_mismatch [OF assms(4) this _ k(2), of ops] a k
  show "\<exists>k. k < length (patterns net) \<and>
     first_mismatch (map (\<lambda>p. length (lut p)) (patterns net))
       (map (\<lambda>d. length (sp_lut d)) (wd_patterns data)) = Some k \<and>
     load ops net data =
       (Some (LutSizeMismatch k),
        net\<lparr> patterns :=
          with_luts (take k (patterns net))
            (map (\<lambda>d. map (\<lambda>x. f32_write ops (to_number x)) (sp_lut d)) (take k (wd_patterns data))) @
          drop k (patterns net) \<rparr>)"
    by blast
qed

theorem load_mismatch_outcome_witness:
  "loadBinary new_NTupleNetwork (binary_file 1 []) = (Some PatternCountMismatch, new_NTupleNetwork) \<and>
   fst (loadBinary new_NTupleNetwork (binary_file 1 mismatched_tables)) = Some (LutSizeMismatch 1) \<and>
   drop 1 (patterns (snd (loadBinary new_NTupleNetwork (binary_file 1 mismatched_tables)))) =
     drop 1 (patterns new_NTupleNetwork) \<and>
   fst (load ieee_ops new_NTupleNetwork mismatched_data) = Some (LutSizeMismatch 1) \<and>
   drop 1 (patterns (snd (load ieee_ops new_NTupleNetwork mismatched_data))) =
     drop 1 (patterns new_NTupleNetwork)"
proof -
  let ?net = new_NTupleNetwork
  let ?lens = "map (\<lambda>p. length (lut p)) (patterns ?net)"
  have len: "length (patterns ?net) = 7"
    using same_catalog_new by (rule same_catalog_length)
  have fm1: "first_mismatch ?lens (map length (map snd mismatched_tables)) = Some 1"
    using lutSize_pos [of 6] by (simp add: new_table_lengths mismatched_tables_def)
  have fm2: "first_mismatch ?lens (map (\<lambda>d. length (sp_lut d)) (wd_patterns mismatched_data)) = Some 1"
    using lutSize_pos [of 6] by (simp add: new_table_lengths mismatched_data_def Let_def)
  have ne1: "?lens \<noteq> map length (map snd mismatched_tables)"
    using fm1 first_mismatch_same [of ?lens] by auto
  have ne2: "?lens \<noteq> map (\<lambda>d. length (sp_lut d)) (wd_patterns mismatched_data)"
    using fm2 first_mismatch_same [of ?lens] by auto
  have h1: "length mismatched_tables < 2 ^ 31"
    "\<forall>tb\<in>set mismatched_tables. length (snd tb) < 2 ^ 31"
    using lutSize_6_bound by (simp_all add: mismatched_tables_def)
  have h2: "wd_numPatterns mismatched_data = int (length (wd_patterns mismatched_data))"
    "\<forall>d\<in>set (wd_patterns mismatched_data). int (length (sp_lut d)) = sp_lutSize d"
    by (simp_all add: mismatched_data_def Let_def)
  have l1: "length mismatched_tables = length (patterns ?net)"
    "length (wd_patterns mismatched_data) = length (patterns ?net)"
    by (simp_all add: mismatched_tables_def mismatched_data_def Let_def len)
  have e: "length ([] :: (int \<times> 32 word list) list) < 2 ^ 31"
    "\<forall>tb\<in>set ([] :: (int \<times> 32 word list) list). length (snd tb) < 2 ^ 31"
    "length ([] :: (int \<times> 32 word list) list) \<noteq> length (patterns ?net)"
    by (simp_all add: len)
  from load_mismatch_outcome [OF e(1,2) h2, of ?net 1 ieee_ops] e(3)
  have "loadBinary ?net (binary_file 1 []) = (Some PatternCountMismatch, ?net)"
    by blast
  moreover from load_mismatch_outcome [OF h1 h2, of ?net 1 ieee_ops] l1 ne1 ne2 fm1 fm2
  have "loadBinary ?net (binary_file 1 mismatched_tables) =
      (Some (LutSizeMismatch 1),
       ?net\<lparr> patterns := with_luts (take 1 (patterns ?net)) (take 1 (map snd mismatched_tables)) @
                           drop 1 (patterns ?net) \<rparr>)"
    "load ieee_ops ?net mismatched_data =
      (Some (LutSizeMismatch 1),
       ?net\<lparr> patterns :=
          with_luts (take 1 (patterns ?net))
            (map (\<lambda>d. map (\<lambda>x. f32_write ieee_ops (to_number x)) (sp_lut d)) (take 1 (wd_patterns mismatched_data))) @
          drop 1 (patterns ?net) \<rparr>)"
    by auto
  moreover have "length (with_luts (take 1 (patterns ?net)) (take 1 (map snd mismatched_tables))) = 1"
    "length (with_luts (take 1 (patterns ?net))
       (map (\<lambda>d. map (\<lambda>x. f32_write ieee_ops (to_number x)) (sp_lut d)) (take 1 (wd_patterns mismatched_data)))) = 1"
    by (simp_all add: with_luts_def len mismatched_tables_def mismatched_data_def Let_def)
  ultimately show ?thesis
    by simp
qed

section \<open>Properties of the IEEE arithmetic\<close>

lemma pow2_powi: "pow2 e = 2 powi e"
  by (simp add: pow2_def power_int_def inverse_eq_divide power_one_over)

lemma powi_two_Suc: "(2::real) powi (k + 1) = 2 powi k * 2"
  by (rule power_int_add_1) simp

lemma exponent_up_bounds:
  "1 \<le> a \<Longrightarrow> 0 \<le> exponent_up a \<and> 2 powi (exponent_up a) \<le> a \<and> a < 2 powi (exponent_up a + 1)"
proof (induction a rule: exponent_up.induct)
  case (1 a)
  show ?case
  proof (cases "2 \<le> a")
    case True
    then have "1 \<le> a / 2" by simp
    from "1.IH" [OF True this] have ih: "0 \<le> exponent_up (a / 2)"
      "2 powi (exponent_up (a / 2)) \<le> a / 2" "a / 2 < 2 powi (exponent_up (a / 2) + 1)"
      by simp_all
    have eq: "exponent_up a = exponent_up (a / 2) + 1"
      using True by (subst exponent_up.simps) simp
    from ih(2) have "2 powi (exponent_up (a / 2)) * 2 \<le> a" by simp
    moreover from ih(3) have "a < 2 powi (exponent_up (a / 2) + 1) * 2" by simp
    ultimately show ?thesis
      using ih(1) unfolding eq by (simp only: powi_two_Suc) simp
  next
    case False
    then have "exponent_up a = 0" by (subst exponent_up.simps) simp
    with False "1.prems" show ?thesis by simp
  qed
qed

lemma exponent_down_bounds:
  "0 < a \<Longrightarrow> a < 1 \<Longrightarrow>
   exponent_down a < 0 \<and> 2 powi (exponent_down a) \<le> a \<and> a < 2 powi (exponent_down a + 1)"
proof (induction a rule: exponent_down.induct)
  case (1 a)
  from "1.prems" have eq: "exponent_down a = exponent_down (a * 2) - 1"
    by (subst exponent_down.simps) simp
  show ?case
  proof (cases "a * 2 < 1")
    case True
    from "1.prems" have "0 < a \<and> a < 1" "0 < a * 2" by simp_all
    from "1.IH" [OF this True] have ih: "exponent_down (a * 2) < 0"
      "2 powi (exponent_down (a * 2)) \<le> a * 2" "a * 2 < 2 powi (exponent_down (a * 2) + 1)"
      by simp_all
    have "2 powi (exponent_down (a * 2)) = (2::real) powi (exponent_down (a * 2) - 1) * 2"
      using powi_two_Suc [of "exponent_down (a * 2) - 1"] by simp
    with ih(2) have "2 powi (exponent_down (a * 2) - 1) \<le> a" by simp
    moreover have "a < 2 powi (exponent_down (a * 2))"
      using ih(3) by (simp only: powi_two_Suc)
    ultimately show ?thesis using ih(1) unfolding eq by simp
  next
    case False
    then have "exponent_down (a * 2) = 0" by (subst exponent_down.simps) simp
    with False "1.prems" show ?thesis unfolding eq by (simp add: power_int_minus)
  qed
qed

lemma binary_exponent_bounds:
  assumes "0 < a"
  shows "2 powi (binary_exponent a) \<le> a \<and> a < 2 powi (binary_exponent a + 1)"
proof (cases "1 \<le> a")
  case True
  then show ?thesis using exponent_up_bounds [of a] by (simp add: binary_exponent_def)
next
  case False
  with assms show ?thesis using exponent_down_bounds [of a] by (simp add: binary_exponent_def)
qed

lemma binary_exponent_less:
  assumes "0 < a" "a < 2 powi k"
  shows "binary_exponent a < k"
proof (rule ccontr)
  assume "\<not> binary_exponent a < k"
  then have "k \<le> binary_exponent a" by simp
  then have "(2::real) powi k \<le> 2 powi (binary_exponent a)"
    by (rule power_int_increasing) simp
  with binary_exponent_bounds [OF assms(1)] assms(2) show False by simp
qed

lemma binary_exponent_ge:
  assumes "0 < a" "2 powi k \<le> a"
  shows "k \<le> binary_exponent a"
proof (rule ccontr)
  assume "\<not> k \<le> binary_exponent a"
  then have "binary_exponent a + 1 \<le> k" by simp
  then have "(2::real) powi (binary_exponent a + 1) \<le> 2 powi k"
    by (rule power_int_increasing) simp
  with binary_exponent_bounds [OF assms(1)] assms(2) show False by simp
qed

lemma binary_exponent_eq:
  assumes "0 < a" "2 powi k \<le> a" "a < 2 powi (k + 1)"
  shows "binary_exponent a = k"
  using binary_exponent_less [OF assms(1,3)] binary_exponent_ge [OF assms(1,2)] by simp

lemma round_half_even_of_int: "round_half_even (of_int n) = n"
  by (simp add: round_half_even_def)

lemma round_to_precision_exact:
  assumes "\<bar>N\<bar> < 2 ^ p" and "emin - int p + 1 \<le> k"
  shows "round_to_precision p emin (of_int N * 2 powi k) = of_int N * 2 powi k"
proof (cases "N = 0")
  case True
  then show ?thesis by (simp add: round_to_precision_def)
next
  case False
  let ?x = "of_int N * (2::real) powi k"
  define e where "e = max (binary_exponent \<bar>?x\<bar>) emin"
  define d where "d = k - (e - int p + 1)"
  have pos: "0 < \<bar>?x\<bar>" using False by simp
  have "\<bar>?x\<bar> = of_int \<bar>N\<bar> * 2 powi k" by (simp add: abs_mult)
  also have "\<dots> < of_int (2 ^ p) * 2 powi k"
  proof (intro mult_strict_right_mono)
    from assms(1) show "(of_int \<bar>N\<bar> :: real) < of_int (2 ^ p)" by (simp only: of_int_less_iff)
  qed simp
  also have "\<dots> = 2 powi (int p + k)"
    by (simp add: power_int_add)
  finally have "binary_exponent \<bar>?x\<bar> < int p + k"
    using pos by (intro binary_exponent_less) simp_all
  with assms(2) have d: "0 \<le> d" by (simp add: d_def e_def)
  have "k = (e - int p + 1) + d" by (simp add: d_def)
  moreover have "(2::real) powi ((e - int p + 1) + d) = 2 powi (e - int p + 1) * 2 powi d"
    by (rule power_int_add) simp
  ultimately have "(2::real) powi k = 2 powi (e - int p + 1) * 2 powi d"
    by (simp only:)
  moreover have "(2::real) powi d = 2 ^ nat d"
    using d by (simp add: power_int_def)
  ultimately have split: "(2::real) powi k = 2 powi (e - int p + 1) * 2 ^ nat d"
    by (simp only:)
  then have "?x / 2 powi (e - int p + 1) = of_int (N * 2 ^ nat d)"
    by simp
  then have "of_int (round_half_even (?x / 2 powi (e - int p + 1))) * 2 powi (e - int p + 1) = ?x"
    by (simp only: round_half_even_of_int) (simp add: split)
  then show ?thesis
    using False by (simp add: round_to_precision_def Let_def pow2_powi e_def)
qed

lemma drop_bit_31: "drop_bit 31 (w :: 32 word) = of_bool (bit w 31)"
proof (rule bit_eqI)
  fix n
  show "bit (drop_bit 31 w) n \<longleftrightarrow> bit (of_bool (bit w 31) :: 32 word) n"
  proof (cases "n = 0")
    case True
    then show ?thesis by (simp add: bit_simps)
  next
    case False
    then have "\<not> bit w (31 + n)"
      using bit_imp_le_length [of w "31 + n"] by auto
    with False show ?thesis by (simp add: bit_simps)
  qed
qed

lemma word32_fields:
  fixes w :: "32 word"
  shows "w = (if bit w 31 then 2 ^ 31 else 0) +
     word_of_int (int (unat (take_bit 8 (drop_bit 23 w))) * 2 ^ 23 + int (unat (take_bit 23 w)))"
proof -
  let ?e = "take_bit 8 (drop_bit 23 w)"
  let ?m = "take_bit 23 w"
  have "w = push_bit 23 (drop_bit 23 w) + ?m"
    by (simp only: bits_ident)
  also have "drop_bit 23 w = push_bit 8 (drop_bit 8 (drop_bit 23 w)) + ?e"
    by (simp only: bits_ident)
  also have "drop_bit 8 (drop_bit 23 w) = of_bool (bit w 31)"
    by (simp add: drop_bit_drop_bit drop_bit_31)
  finally have "w = push_bit 23 (push_bit 8 (of_bool (bit w 31)) + ?e) + ?m" .
  then have "w = (if bit w 31 then 2 ^ 31 else 0) + (?e * 2 ^ 23 + ?m)"
    by (cases "bit w 31") (simp_all add: push_bit_eq_mult algebra_simps)
  moreover have "word_of_int (int (unat ?e) * 2 ^ 23 + int (unat ?m)) = ?e * 2 ^ 23 + ?m"
    by simp
  ultimately show ?thesis by (simp only:)
qed

lemma powi_numeral_nat: "(2::real) powi (int n) = 2 ^ n"
  by (simp add: power_int_def)

lemma float32_finite_form:
  assumes "float32_value w = Finite r"
  defines "e \<equiv> unat (take_bit 8 (drop_bit 23 w))" and "m \<equiv> unat (take_bit 23 w)"
  defines "M \<equiv> (if e = 0 then m else 2 ^ 23 + m)"
    and "k \<equiv> (if e = 0 then - 149 else int e - 150)"
  shows "e < 255" and "m < 2 ^ 23" and "M < 2 ^ 24" and "- 149 \<le> k" and "k \<le> 104"
    and "r = (if bit w 31 then - real M * 2 powi k else real M * 2 powi k)"
    and "0 < e \<Longrightarrow> 2 ^ 23 \<le> M"
proof -
  have e256: "e < 256"
    unfolding e_def by (simp add: unsigned_take_bit_eq take_bit_nat_less_exp [of 8, simplified])
  show m: "m < 2 ^ 23"
    unfolding m_def using take_bit_nat_less_exp [of 23 "unat w"] by (simp add: unsigned_take_bit_eq)
  from assms(1) have ne: "e \<noteq> 255"
    by (auto simp: float32_value_def Let_def e_def split: if_splits)
  with e256 show e: "e < 255" by simp
  from m show "M < 2 ^ 24" by (simp add: M_def)
  show "- 149 \<le> k" by (simp add: k_def)
  from e show "k \<le> 104" by (simp add: k_def)
  from assms(1) ne show "r = (if bit w 31 then - real M * 2 powi k else real M * 2 powi k)"
    by (simp add: float32_value_def Let_def e_def [symmetric] m_def [symmetric] M_def k_def
        pow2_powi split: if_splits)
  show "0 < e \<Longrightarrow> 2 ^ 23 \<le> M" by (simp add: M_def)
qed

lemma float64_round_float32:
  assumes "float32_value w = Finite r"
  shows "float64_round r = r"
proof -
  define e where "e = unat (take_bit 8 (drop_bit 23 w))"
  define m where "m = unat (take_bit 23 w)"
  define M where "M = (if e = 0 then m else 2 ^ 23 + m)"
  define k where "k = (if e = 0 then - 149 else int e - 150)"
  define N where "N = (if bit w 31 then - int M else int M)"
  note f = float32_finite_form [OF assms, folded e_def m_def, folded M_def k_def]
  have r: "r = of_int N * 2 powi k" using f(6) by (simp add: N_def)
  have "\<bar>N\<bar> < 2 ^ 24" using f(3) by (simp add: N_def)
  also have "(2::int) ^ 24 < 2 ^ 53" by simp
  finally have "\<bar>N\<bar> < 2 ^ 53" .
  moreover have "- 1022 - int 53 + 1 \<le> k" using f(4) by simp
  ultimately show ?thesis
    unfolding float64_round_def r by (rule round_to_precision_exact)
qed

lemma float32_bits_float32_value:
  assumes "float32_value w = Finite r"
  shows "float32_value (float32_bits r) = Finite r"
proof (cases "r = 0")
  case True
  then show ?thesis
    by (simp add: float32_bits_def round_to_precision_def float32_value_def)
next
  case False
  define e where "e = unat (take_bit 8 (drop_bit 23 w))"
  define m where "m = unat (take_bit 23 w)"
  define M where "M = (if e = 0 then m else 2 ^ 23 + m)"
  define k where "k = (if e = 0 then - 149 else int e - 150)"
  define N where "N = (if bit w 31 then - int M else int M)"
  note f = float32_finite_form [OF assms, folded e_def m_def, folded M_def k_def]
  have r: "r = of_int N * 2 powi k" using f(6) by (simp add: N_def)
  have a: "\<bar>r\<bar> = real M * 2 powi k" using f(6) by (simp add: abs_mult)
  from False a have M0: "0 < M" by (cases "M = 0") simp_all
  have pk: "(0::real) < 2 powi k" by simp
  have sgn: "r < 0 \<longleftrightarrow> bit w 31"
    using f(6) M0 pk by (simp add: mult_less_0_iff zero_less_mult_iff not_less less_imp_le)
  have "\<bar>N\<bar> < 2 ^ 24" using f(3) by (simp add: N_def)
  moreover have "- 126 - int 24 + 1 \<le> k" using f(4) by simp
  ultimately have rnd: "round_to_precision 24 (- 126) r = r"
    unfolding r by (rule round_to_precision_exact)
  have pos: "0 < \<bar>r\<bar>" using False by simp
  have small: "\<bar>r\<bar> < 2 ^ 128"
  proof -
    have "real M * 2 powi k < 2 ^ 24 * 2 powi k"
      using f(3) by (intro mult_strict_right_mono) simp_all
    also have "\<dots> \<le> 2 ^ 24 * 2 powi 104"
      using f(5) by (intro mult_left_mono power_int_increasing) simp_all
    also have "\<dots> = 2 ^ 128"
    proof -
      have "(2::real) powi 104 = 2 ^ 104" by (simp add: power_int_def)
      then show ?thesis by simp
    qed
    finally show ?thesis by (simp only: a)
  qed
  have ex: "max (binary_exponent \<bar>r\<bar>) (- 126) = k + 23"
  proof (cases "e = 0")
    case True
    then have k: "k = - 149" and M: "M = m" by (simp_all add: k_def M_def)
    have "real M * 2 powi k < 2 ^ 23 * 2 powi (- 149)"
      unfolding k M using f(2) by (intro mult_strict_right_mono) simp_all
    also have "\<dots> = 2 powi (- 126)"
    proof -
      have "(2::real) powi (23 + (- 149)) = 2 powi 23 * 2 powi (- 149)"
        by (rule power_int_add) simp
      moreover have "(2::real) powi 23 = 2 ^ 23" by (simp add: power_int_def)
      ultimately show ?thesis by simp
    qed
    finally have "binary_exponent \<bar>r\<bar> < - 126"
      using pos unfolding a by (intro binary_exponent_less) simp_all
    then show ?thesis by (simp add: k)
  next
    case False
    then have k: "k = int e - 150" and e: "0 < e" by (simp_all add: k_def)
    have p23: "(2::real) powi (k + 23) = 2 powi k * 2 ^ 23"
      by (subst power_int_add) (simp_all add: power_int_def)
    have p24: "(2::real) powi (k + 23 + 1) = 2 powi k * 2 ^ 24"
      by (simp only: powi_two_Suc p23) simp
    have "2 powi (k + 23) \<le> real M * 2 powi k"
      using f(7) [OF e] unfolding p23
      by (simp add: mult.commute [of "2 powi k"] mult_right_mono)
    moreover have "real M * 2 powi k < 2 powi (k + 23 + 1)"
      unfolding p24 using f(3) by (simp add: mult.commute [of "2 powi k"])
    ultimately have "binary_exponent \<bar>r\<bar> = k + 23"
      using pos unfolding a by (intro binary_exponent_eq) simp_all
    with e k show ?thesis by simp
  qed
  have fl: "\<lfloor>\<bar>r\<bar> / 2 powi k\<rfloor> = int M"
    unfolding a by simp
  have field: "(k + 23 + 126) * 2 ^ 23 + int M = int e * 2 ^ 23 + int m"
    by (simp add: k_def M_def)
  have n0: "\<not> \<bar>r\<bar> = 0" and nb: "\<not> 2 ^ 128 \<le> \<bar>r\<bar>"
    using pos small by simp_all
  have e23: "k + 23 - 23 = k" by simp
  have "float32_bits r =
      (if r < 0 then 2 ^ 31 else 0) +
      word_of_int ((max (binary_exponent \<bar>r\<bar>) (- 126) + 126) * 2 ^ 23 +
        \<lfloor>\<bar>r\<bar> / pow2 (max (binary_exponent \<bar>r\<bar>) (- 126) - 23)\<rfloor>)"
    unfolding float32_bits_def Let_def rnd by (simp only: n0 nb if_False)
  also have "\<dots> = (if bit w 31 then 2 ^ 31 else 0) + word_of_int (int e * 2 ^ 23 + int m)"
    unfolding ex e23 pow2_powi fl field sgn ..
  also have "\<dots> = w"
    unfolding e_def m_def by (rule word32_fields [symmetric])
  finally show ?thesis using assms by simp
qed

lemma float32_value_infinities:
  "float32_value 0x7F800000 = PosInfinity" "float32_value 0xFF800000 = NegInfinity"
  "float32_value 0x7FC00000 = NaN"
  by (simp_all add: float32_value_def)

lemma float32_store_float32_value:
  "float32_value (float32_store (float32_value w)) = float32_value w"
proof (cases "float32_value w")
  case (Finite r)
  then show ?thesis by (simp add: float32_store_def float32_bits_float32_value)
qed (simp_all add: float32_store_def float32_value_infinities)

lemma ieee_add_zero:
  "f32_read ieee_ops (f32_write ieee_ops (number_add ieee_ops (f32_read ieee_ops w) (Finite 0))) =
   f32_read ieee_ops w"
proof (cases "float32_value w")
  case (Finite r)
  then show ?thesis
    by (simp add: ieee_ops_def float64_round_float32 float32_store_def float32_bits_float32_value)
qed (simp_all add: ieee_ops_def float32_store_def float32_value_infinities)

lemma literals_are_rounded:
  "float64_round (9 / 10) = literal_0_9" "float64_round (1 / 10) = literal_0_1"
  unfolding literal_0_9_def literal_0_1_def by code_simp+

section \<open>Updates and evaluations on the empty board\<close>

lemma valid_empty_board: "valid_board empty_board"
  by (simp add: valid_board_def empty_board_def list_all_iff)

lemma index_of_empty_board:
  "\<forall>i\<in>set v. i < 16 \<Longrightarrow> index_of empty_board v = 0"
  unfolding index_of_fold
  by (induction v rule: rev_induct) (simp_all add: empty_board_def SIZE_def)

lemma variant_slot0:
  assumes "same_catalog net" "p \<in> set (patterns net)" "v \<in> set (variants p)"
  shows "index_of empty_board v = 0"
proof -
  from same_catalog_entry [OF assms(1,2)] obtain b where b: "b \<in> set BASE_PATTERNS"
    and p: "variants p = allSymmetries b" by blast
  from b base_patterns_range have "\<forall>i\<in>set b. i < 16" by blast
  with assms(3) p have "\<forall>j\<in>set v. j < 16"
    using variant_range [of v b] by simp
  then show ?thesis by (rule index_of_empty_board)
qed

lemma variants_count: "\<forall>b\<in>set BASE_PATTERNS. length (allSymmetries b) = 8"
  by code_simp

lemma variants_count_entry:
  assumes "same_catalog net" "p \<in> set (patterns net)"
  shows "length (variants p) = 8"
  using same_catalog_entry [OF assms] variants_count by auto

lemma fold_same_slot:
  "\<forall>v\<in>set vs. g v = i \<Longrightarrow>
   fold (\<lambda>v l. l[g v := F (l ! g v)]) vs l = l[i := (F ^^ length vs) (l ! i)]"
proof (induction vs arbitrary: l)
  case Nil
  then show ?case by simp
next
  case (Cons v vs)
  show ?case
  proof (cases "i < length l")
    case True
    with Cons show ?thesis by (simp add: funpow_swap1)
  next
    case False
    with Cons show ?thesis by (simp add: list_update_beyond)
  qed
qed

lemma update_pattern_empty_board:
  assumes "same_catalog net" "p \<in> set (patterns net)"
  shows "update_pattern ops empty_board delta p =
     p\<lparr> lut := (lut p)[0 := (add_to_cell ops delta ^^ 8) (lut p ! 0)] \<rparr>"
proof -
  have "\<forall>v\<in>set (variants p). index_of empty_board v = 0"
    using variant_slot0 [OF assms] by blast
  then have "fold (\<lambda>v l. l[index_of empty_board v :=
        add_to_cell ops delta (l ! index_of empty_board v)]) (variants p) (lut p) =
      (lut p)[0 := (add_to_cell ops delta ^^ length (variants p)) (lut p ! 0)]"
    by (rule fold_same_slot)
  then show ?thesis
    by (simp add: update_pattern_def add_to_cell_def [abs_def] variants_count_entry [OF assms])
qed

lemma update_empty_board:
  assumes "same_catalog net"
  shows "update ops net empty_board delta =
     net\<lparr> patterns :=
       map (\<lambda>p. p\<lparr> lut := (lut p)[0 := (add_to_cell ops delta ^^ 8) (lut p ! 0)] \<rparr>)
         (patterns net) \<rparr>"
  using update_pattern_empty_board [OF assms] by (simp add: update_def)

lemma slot0_update_empty_board:
  assumes "same_catalog net" and "\<forall>p\<in>set (patterns net). lut p ! 0 = c"
  shows "\<forall>p\<in>set (patterns (update ops net empty_board delta)).
           lut p ! 0 = (add_to_cell ops delta ^^ 8) c"
proof -
  have "0 < length (lut p)" if "p \<in> set (patterns net)" for p
  proof -
    from same_catalog_entry [OF assms(1) that] obtain b :: "nat list" where
      "length (lut p) = lutSize (length b)" by blast
    with lutSize_pos [of "length b"] show ?thesis by simp
  qed
  with assms(2) show ?thesis
    by (auto simp: update_empty_board [OF assms(1)])
qed

lemma fold_constant_step: "\<forall>x\<in>set xs. h x = f \<Longrightarrow> fold h xs = f ^^ length xs"
  by (induction xs) (simp_all add: funpow_swap1 fun_eq_iff)

lemma evaluate_empty_board:
  assumes "same_catalog net" and "\<forall>p\<in>set (patterns net). lut p ! 0 = c"
  shows "evaluate ops net empty_board =
     ((\<lambda>value. number_add ops value (f32_read ops c)) ^^ 56) (Finite 0)"
proof -
  let ?f = "\<lambda>value. number_add ops value (f32_read ops c)"
  have inner: "fold (\<lambda>variant value.
        number_add ops value (f32_read ops (lut p ! index_of empty_board variant)))
      (variants p) = ?f ^^ 8" if p: "p \<in> set (patterns net)" for p
  proof -
    have "\<forall>v\<in>set (variants p).
        (\<lambda>value. number_add ops value (f32_read ops (lut p ! index_of empty_board v))) = ?f"
      using variant_slot0 [OF assms(1) p] assms(2) p by simp
    then have "fold (\<lambda>variant value.
        number_add ops value (f32_read ops (lut p ! index_of empty_board variant)))
      (variants p) = ?f ^^ length (variants p)"
      by (rule fold_constant_step)
    then show ?thesis by (simp only: variants_count_entry [OF assms(1) p])
  qed
  then have "\<forall>p\<in>set (patterns net).
      (\<lambda>value. fold (\<lambda>variant value.
        number_add ops value (f32_read ops (lut p ! index_of empty_board variant)))
      (variants p) value) = ?f ^^ 8"
    by simp
  then have "fold (\<lambda>p value. fold (\<lambda>variant value.
        number_add ops value (f32_read ops (lut p ! index_of empty_board variant)))
      (variants p) value) (patterns net) = (?f ^^ 8) ^^ length (patterns net)"
    by (rule fold_constant_step)
  also have "\<dots> = ?f ^^ 56"
    by (simp add: same_catalog_length [OF assms(1)] funpow_mult)
  finally show ?thesis by (simp add: evaluate_def)
qed

lemma slot0_new: "\<forall>p\<in>set (patterns new_NTupleNetwork). lut p ! 0 = 0"
  using lutSize_pos by (auto simp: new_NTupleNetwork_def new_pattern_def Let_def)

section \<open>Single-precision stores in sequence\<close>

lemma add_to_cell_finite:
  "float32_value w = Finite q \<Longrightarrow>
   add_to_cell ieee_ops (Finite d) w = float32_bits (float64_round (q + d))"
  by (simp add: add_to_cell_def ieee_ops_def float32_store_def)

lemma add_to_cell_infinity:
  "float32_value w = PosInfinity \<Longrightarrow> add_to_cell ieee_ops (Finite d) w = 0x7F800000"
  by (simp add: add_to_cell_def ieee_ops_def float32_store_def)

lemma decode_eighths:
  "float32_value 0 = Finite 0"
  "float32_value 0x3E000000 = Finite (1 / 8)"
  "float32_value 0x3E800000 = Finite (1 / 4)"
  "float32_value 0x3EC00000 = Finite (3 / 8)"
  "float32_value 0x3F000000 = Finite (1 / 2)"
  "float32_value 0x3F200000 = Finite (5 / 8)"
  "float32_value 0x3F400000 = Finite (3 / 4)"
  "float32_value 0x3F600000 = Finite (7 / 8)"
  "float32_value 0x3F800000 = Finite 1"
  by (simp_all add: float32_value_def pow2_def)

lemma add_eighth:
  "add_to_cell ieee_ops (Finite (1 / 8)) 0 = 0x3E000000"
  "add_to_cell ieee_ops (Finite (1 / 8)) 0x3E000000 = 0x3E800000"
  "add_to_cell ieee_ops (Finite (1 / 8)) 0x3E800000 = 0x3EC00000"
  "add_to_cell ieee_ops (Finite (1 / 8)) 0x3EC00000 = 0x3F000000"
  "add_to_cell ieee_ops (Finite (1 / 8)) 0x3F000000 = 0x3F200000"
  "add_to_cell ieee_ops (Finite (1 / 8)) 0x3F200000 = 0x3F400000"
  "add_to_cell ieee_ops (Finite (1 / 8)) 0x3F400000 = 0x3F600000"
  "add_to_cell ieee_ops (Finite (1 / 8)) 0x3F600000 = 0x3F800000"
  unfolding decode_eighths [THEN add_to_cell_finite] by code_simp+

lemma decode_above_one:
  "float32_value 0x3F800001 = Finite (1 + 1 / 2 ^ 23)"
  "float32_value 0x3F800002 = Finite (1 + 2 / 2 ^ 23)"
  "float32_value 0x3F800003 = Finite (1 + 3 / 2 ^ 23)"
  "float32_value 0x3F800004 = Finite (1 + 4 / 2 ^ 23)"
  "float32_value 0x3F800005 = Finite (1 + 5 / 2 ^ 23)"
  "float32_value 0x3F800006 = Finite (1 + 6 / 2 ^ 23)"
  "float32_value 0x3F800007 = Finite (1 + 7 / 2 ^ 23)"
  "float32_value 0x3F800008 = Finite (1 + 8 / 2 ^ 23)"
  by (simp_all add: float32_value_def pow2_def)

lemma add_absorbed:
  "add_to_cell ieee_ops (Finite (3 / 2 ^ 26)) 0x3F800000 = 0x3F800000"
  unfolding decode_eighths [THEN add_to_cell_finite] by code_simp

lemma add_rounded_up:
  "add_to_cell ieee_ops (Finite (6 / 2 ^ 26)) 0x3F800000 = 0x3F800001"
  "add_to_cell ieee_ops (Finite (6 / 2 ^ 26)) 0x3F800001 = 0x3F800002"
  "add_to_cell ieee_ops (Finite (6 / 2 ^ 26)) 0x3F800002 = 0x3F800003"
  "add_to_cell ieee_ops (Finite (6 / 2 ^ 26)) 0x3F800003 = 0x3F800004"
  "add_to_cell ieee_ops (Finite (6 / 2 ^ 26)) 0x3F800004 = 0x3F800005"
  "add_to_cell ieee_ops (Finite (6 / 2 ^ 26)) 0x3F800005 = 0x3F800006"
  "add_to_cell ieee_ops (Finite (6 / 2 ^ 26)) 0x3F800006 = 0x3F800007"
  "add_to_cell ieee_ops (Finite (6 / 2 ^ 26)) 0x3F800007 = 0x3F800008"
  unfolding decode_eighths [THEN add_to_cell_finite] decode_above_one [THEN add_to_cell_finite]
  by code_simp+

lemma rounding_keeps_2_128:
  "float64_round (2 ^ 128) = 2 ^ 128" "round_to_precision 24 (- 126) (2 ^ 128) = 2 ^ 128"
proof -
  have p: "(2::real) powi 128 = 2 ^ 128" by (simp add: power_int_def)
  show "float64_round (2 ^ 128) = 2 ^ 128"
    using round_to_precision_exact [of 1 53 "- 1022" 128]
    by (simp add: float64_round_def p)
  show "round_to_precision 24 (- 126) (2 ^ 128) = 2 ^ 128"
    using round_to_precision_exact [of 1 24 "- 126" 128] by (simp add: p)
qed

lemma add_overflows:
  "add_to_cell ieee_ops (Finite (2 ^ 128)) 0 = 0x7F800000"
  "add_to_cell ieee_ops (Finite (2 ^ 128)) 0x7F800000 = 0x7F800000"
proof -
  have "float32_bits (2 ^ 128) = 0x7F800000"
    unfolding float32_bits_def Let_def rounding_keeps_2_128(2) by simp
  then have "float32_bits (float64_round (0 + 2 ^ 128)) = 0x7F800000"
    by (simp only: add_0 rounding_keeps_2_128(1))
  then show "add_to_cell ieee_ops (Finite (2 ^ 128)) 0 = 0x7F800000"
    by (simp only: decode_eighths(1) [THEN add_to_cell_finite])
  show "add_to_cell ieee_ops (Finite (2 ^ 128)) 0x7F800000 = 0x7F800000"
    by (rule add_to_cell_infinity) (rule float32_value_infinities)
qed

lemma funpow_8: "(f ^^ 8) x = f (f (f (f (f (f (f (f x)))))))"
  by (simp add: eval_nat_numeral)

lemma eight_eighths: "(add_to_cell ieee_ops (Finite (1 / 8)) ^^ 8) 0 = 0x3F800000"
  by (simp only: funpow_8 add_eighth)

lemma eight_absorbed: "(add_to_cell ieee_ops (Finite (3 / 2 ^ 26)) ^^ 8) 0x3F800000 = 0x3F800000"
  by (simp only: funpow_8 add_absorbed)

lemma eight_rounded_up: "(add_to_cell ieee_ops (Finite (6 / 2 ^ 26)) ^^ 8) 0x3F800000 = 0x3F800008"
  by (simp only: funpow_8 add_rounded_up)

lemma eight_overflows: "(add_to_cell ieee_ops (Finite (2 ^ 128)) ^^ 8) 0 = 0x7F800000"
  by (simp only: funpow_8 add_overflows)

lemma float64_round_exact:
  "\<bar>N\<bar> < 2 ^ 53 \<Longrightarrow> - 1074 \<le> k \<Longrightarrow> float64_round (of_int N * 2 powi k) = of_int N * 2 powi k"
  unfolding float64_round_def by (rule round_to_precision_exact) simp_all

lemma repeated_add_exact:
  assumes "q = of_int N * 2 powi k" and "- 1074 \<le> k" and "int n * \<bar>N\<bar> < 2 ^ 53"
  shows "((\<lambda>y. float64_round (y + q)) ^^ n) 0 = of_nat n * q"
  using assms(3)
proof (induction n)
  case 0
  then show ?case by simp
next
  case (Suc n)
  have "int n * \<bar>N\<bar> \<le> int (Suc n) * \<bar>N\<bar>" by (intro mult_right_mono) simp_all
  with Suc.prems have "int n * \<bar>N\<bar> < 2 ^ 53" by simp
  then have ih: "((\<lambda>y. float64_round (y + q)) ^^ n) 0 = of_nat n * q" by (rule Suc.IH)
  have "of_nat n * q + q = of_int (int (Suc n) * N) * 2 powi k"
    by (simp add: assms(1) algebra_simps)
  moreover have "\<bar>int (Suc n) * N\<bar> < 2 ^ 53"
    using Suc.prems by (simp add: abs_mult)
  ultimately have "float64_round (of_nat n * q + q) = of_nat n * q + q"
    using float64_round_exact [OF _ assms(2), of "int (Suc n) * N"] by simp
  then show ?case by (simp add: ih algebra_simps)
qed

lemma repeated_number_add:
  "f32_read ops c = Finite q \<Longrightarrow>
   ((\<lambda>value. number_add ops value (f32_read ops c)) ^^ n) (Finite x) =
   Finite (((\<lambda>y. num_add ops y q) ^^ n) x)"
  by (induction n) simp_all

lemma repeated_add_infinity:
  "f32_read ops c = PosInfinity \<Longrightarrow> 0 < n \<Longrightarrow>
   ((\<lambda>value. number_add ops value (f32_read ops c)) ^^ n) (Finite x) = PosInfinity"
proof (induction n)
  case 0
  then show ?case by simp
next
  case (Suc n)
  then show ?case by (cases "n = 0") simp_all
qed

lemma evaluate_empty_board_ieee:
  assumes "same_catalog net" and "\<forall>p\<in>set (patterns net). lut p ! 0 = c"
    and "float32_value c = Finite q" and "q = of_int N * 2 powi k" and "- 1074 \<le> k"
    and "56 * \<bar>N\<bar> < 2 ^ 53"
  shows "evaluate ieee_ops net empty_board = Finite (56 * q)"
proof -
  have c: "f32_read ieee_ops c = Finite q" using assms(3) by (simp add: ieee_ops_def)
  have "((\<lambda>y. float64_round (y + q)) ^^ 56) 0 = of_nat 56 * q"
    using assms(4,5) by (rule repeated_add_exact) (use assms(6) in simp)
  then have "((\<lambda>y. num_add ieee_ops y q) ^^ 56) 0 = 56 * q"
    by (simp add: ieee_ops_def)
  then show ?thesis
    unfolding evaluate_empty_board [OF assms(1,2)] repeated_number_add [OF c] by simp
qed

lemma evaluate_empty_board_infinity:
  assumes "same_catalog net" and "\<forall>p\<in>set (patterns net). lut p ! 0 = 0x7F800000"
  shows "evaluate ieee_ops net empty_board = PosInfinity"
proof -
  have "f32_read ieee_ops 0x7F800000 = PosInfinity"
    by (simp add: ieee_ops_def float32_value_infinities)
  then show ?thesis
    unfolding evaluate_empty_board [OF assms] by (rule repeated_add_infinity) simp
qed

section \<open>Updates by zero\<close>

lemma fold_variants_cong:
  "\<forall>v\<in>set vs. f32_read ops (l ! index_of board v) = f32_read ops (l' ! index_of board v) \<Longrightarrow>
   fold (\<lambda>variant value. number_add ops value (f32_read ops (l ! index_of board variant))) vs a =
   fold (\<lambda>variant value. number_add ops value (f32_read ops (l' ! index_of board variant))) vs a"
  by (induction vs arbitrary: a) simp_all

lemma fold_patterns_cong:
  "list_all2 (\<lambda>p p'. variants p = variants p' \<and>
      (\<forall>v\<in>set (variants p). f32_read ops (lut p ! index_of board v) =
                               f32_read ops (lut p' ! index_of board v))) ps ps' \<Longrightarrow>
   fold (\<lambda>p value.
           fold (\<lambda>variant value.
                   number_add ops value (f32_read ops (lut p ! index_of board variant)))
                (variants p) value) ps a =
   fold (\<lambda>p value.
           fold (\<lambda>variant value.
                   number_add ops value (f32_read ops (lut p ! index_of board variant)))
                (variants p) value) ps' a"
proof (induction ps ps' arbitrary: a rule: list_all2_induct)
  case Nil
  then show ?case by simp
next
  case (Cons p ps p' ps')
  then show ?case
    using fold_variants_cong [of "variants p" ops "lut p" board "lut p'"] by simp
qed

lemma evaluate_same_reads:
  assumes cat: "same_catalog net" "same_catalog net'"
    and board: "valid_board board"
    and reads: "\<forall>i < length (patterns net).
        map (f32_read ops) (lut (patterns net' ! i)) = map (f32_read ops) (lut (patterns net ! i))"
  shows "evaluate ops net' board = evaluate ops net board"
proof -
  have len: "length (patterns net') = length (patterns net)"
    using cat by (simp add: same_catalog_length)
  have "list_all2 (\<lambda>p p'. variants p = variants p' \<and>
      (\<forall>v\<in>set (variants p). f32_read ops (lut p ! index_of board v) =
                               f32_read ops (lut p' ! index_of board v)))
      (patterns net') (patterns net)"
  proof (rule list_all2_all_nthI)
    show "length (patterns net') = length (patterns net)" by (rule len)
  next
    fix i assume "i < length (patterns net')"
    then have i: "i < length (patterns net)" "i < length (patterns net')"
      using len by simp_all
    let ?p = "patterns net ! i" and ?p' = "patterns net' ! i"
    have vars: "variants ?p' = variants ?p"
      using same_catalog_nth [OF cat(1) i(1)] same_catalog_nth [OF cat(2) i(2)] by simp
    have lens: "length (lut ?p') = length (lut ?p)"
      using same_catalog_nth [OF cat(1) i(1)] same_catalog_nth [OF cat(2) i(2)] by simp
    have mem: "?p \<in> set (patterns net)" using i(1) by simp
    have "f32_read ops (lut ?p' ! index_of board v) = f32_read ops (lut ?p ! index_of board v)"
      if v: "v \<in> set (variants ?p)" for v
    proof -
      from board have "length board = SIZE * SIZE" "\<forall>c\<in>set board. unat c \<le> 15"
        by (simp_all add: valid_board_def list_all_iff)
      from index_within_table [OF cat(1) this mem v]
      have idx: "index_of board v < length (lut ?p)" by simp
      from reads i(1) have "map (f32_read ops) (lut ?p') ! index_of board v =
          map (f32_read ops) (lut ?p) ! index_of board v"
        by simp
      with idx lens show ?thesis by simp
    qed
    then show "variants ?p' = variants ?p \<and>
      (\<forall>v\<in>set (variants ?p'). f32_read ops (lut ?p' ! index_of board v) =
                               f32_read ops (lut ?p ! index_of board v))"
      using vars by simp
  qed
  then have "fold (\<lambda>p value.
           fold (\<lambda>variant value.
                   number_add ops value (f32_read ops (lut p ! index_of board variant)))
                (variants p) value) (patterns net') (Finite 0) =
   fold (\<lambda>p value.
           fold (\<lambda>variant value.
                   number_add ops value (f32_read ops (lut p ! index_of board variant)))
                (variants p) value) (patterns net) (Finite 0)"
    by (rule fold_patterns_cong)
  then show ?thesis
    unfolding evaluate_def .
qed

lemma fold_update_reads:
  assumes "\<forall>w. f32_read ops (g w) = f32_read ops w"
  shows "map (f32_read ops) (fold (\<lambda>v l. l[ix v := g (l ! ix v)]) vs l) = map (f32_read ops) l"
proof (induction vs arbitrary: l)
  case Nil
  then show ?case by simp
next
  case (Cons v vs)
  have "map (f32_read ops) (l[ix v := g (l ! ix v)]) = map (f32_read ops) l"
  proof (cases "ix v < length l")
    case True
    then have "(map (f32_read ops) l)[ix v := f32_read ops (l ! ix v)] = map (f32_read ops) l"
      by (simp add: list_update_same_conv)
    then show ?thesis using assms by (simp add: map_update)
  next
    case False
    then show ?thesis by (simp add: list_update_beyond)
  qed
  with Cons.IH [of "l[ix v := g (l ! ix v)]"] show ?case by simp
qed

lemma update_zero_reads:
  "map (f32_read ieee_ops) (lut (update_pattern ieee_ops board (Finite 0) p)) =
   map (f32_read ieee_ops) (lut p)"
  unfolding update_pattern_def
  using fold_update_reads [of ieee_ops
      "\<lambda>w. f32_write ieee_ops (number_add ieee_ops (f32_read ieee_ops w) (Finite 0))"
      "index_of board" "variants p" "lut p"] ieee_add_zero
  by simp

text \<open>
  C3, amended. In every state of the network (any table contents, also \<open>Infinity\<close> and
  \<open>NaN\<close> cells) and for every board, \<open>update(board, 0)\<close> leaves every cell with the same
  number, so \<open>evaluate\<close> returns the same value on every board of the game before and
  after it. (Repetition is not linear: that part of the claim fails.)
\<close>

theorem update_zero_keeps_evaluate:
  assumes "same_catalog net" and "valid_board board'"
  shows "evaluate ieee_ops (update ieee_ops net board (Finite 0)) board' =
         evaluate ieee_ops net board'"
proof (rule evaluate_same_reads [OF assms(1) _ assms(2)])
  show "same_catalog (update ieee_ops net board (Finite 0))"
    using assms(1) by (rule same_catalog_update)
  show "\<forall>i < length (patterns net).
      map (f32_read ieee_ops) (lut (patterns (update ieee_ops net board (Finite 0)) ! i)) =
      map (f32_read ieee_ops) (lut (patterns net ! i))"
    by (simp add: update_def update_zero_reads)
qed

section \<open>Repeated updates on the empty board\<close>

lemma same_catalog_unit: "same_catalog unit_network"
  unfolding unit_network_def using same_catalog_new by (rule same_catalog_update)

lemma same_catalog_overflown: "same_catalog overflown_network"
  unfolding overflown_network_def using same_catalog_new by (rule same_catalog_update)

lemma slot0_unit: "\<forall>p\<in>set (patterns unit_network). lut p ! 0 = 0x3F800000"
  unfolding unit_network_def
  using slot0_update_empty_board [OF same_catalog_new slot0_new, of ieee_ops "Finite (1 / 8)"]
  by (simp only: eight_eighths)

lemma slot0_overflown: "\<forall>p\<in>set (patterns overflown_network). lut p ! 0 = 0x7F800000"
  unfolding overflown_network_def
  using slot0_update_empty_board [OF same_catalog_new slot0_new, of ieee_ops "Finite (2 ^ 128)"]
  by (simp only: eight_overflows)

lemma evaluate_unit: "evaluate ieee_ops unit_network empty_board = Finite 56"
  using evaluate_empty_board_ieee [OF same_catalog_unit slot0_unit decode_eighths(9), of 1 0]
  by simp

lemma evaluate_new: "evaluate ieee_ops new_NTupleNetwork empty_board = Finite 0"
  using evaluate_empty_board_ieee [OF same_catalog_new slot0_new decode_eighths(1), of 0 0]
  by simp

lemma evaluate_overflown: "evaluate ieee_ops overflown_network empty_board = PosInfinity"
  using same_catalog_overflown slot0_overflown by (rule evaluate_empty_board_infinity)

lemma evaluate_twice_delta:
  "evaluate ieee_ops
     (update ieee_ops (update ieee_ops unit_network empty_board (Finite (3 / 2 ^ 26)))
        empty_board (Finite (3 / 2 ^ 26))) empty_board = Finite 56"
proof -
  let ?n1 = "update ieee_ops unit_network empty_board (Finite (3 / 2 ^ 26))"
  let ?n2 = "update ieee_ops ?n1 empty_board (Finite (3 / 2 ^ 26))"
  have c1: "same_catalog ?n1" using same_catalog_unit by (rule same_catalog_update)
  have c2: "same_catalog ?n2" using c1 by (rule same_catalog_update)
  have s1: "\<forall>p\<in>set (patterns ?n1). lut p ! 0 = 0x3F800000"
    using slot0_update_empty_board [OF same_catalog_unit slot0_unit, of ieee_ops "Finite (3 / 2 ^ 26)"]
    by (simp only: eight_absorbed)
  have s2: "\<forall>p\<in>set (patterns ?n2). lut p ! 0 = 0x3F800000"
    using slot0_update_empty_board [OF c1 s1, of ieee_ops "Finite (3 / 2 ^ 26)"]
    by (simp only: eight_absorbed)
  show ?thesis
    using evaluate_empty_board_ieee [OF c2 s2 decode_eighths(9), of 1 0] by simp
qed

lemma evaluate_once_double_delta:
  "evaluate ieee_ops (update ieee_ops unit_network empty_board (Finite (6 / 2 ^ 26))) empty_board =
     Finite (56 + 7 / 131072)"
proof -
  let ?n = "update ieee_ops unit_network empty_board (Finite (6 / 2 ^ 26))"
  have c: "same_catalog ?n" using same_catalog_unit by (rule same_catalog_update)
  have s: "\<forall>p\<in>set (patterns ?n). lut p ! 0 = 0x3F800008"
    using slot0_update_empty_board [OF same_catalog_unit slot0_unit, of ieee_ops "Finite (6 / 2 ^ 26)"]
    by (simp only: eight_rounded_up)
  have q: "(1 + 8 / 2 ^ 23 :: real) = of_int 1048577 * 2 powi (- 20)"
    by (simp add: power_int_def power_one_over)
  have "evaluate ieee_ops ?n empty_board = Finite (56 * (1 + 8 / 2 ^ 23))"
    using c s decode_above_one(8) q by (rule evaluate_empty_board_ieee) simp_all
  then show ?thesis by simp
qed

text \<open>
  C3, as stated, fails in its second half. From the state with 1.0 in slot 0 of every
  table, \<open>update(board, \<delta>)\<close> twice with \<open>\<delta> = 3 / 2 ^ 26\<close> leaves every cell as it was
  (each \<open>lut[idx] += \<delta>\<close> rounds back to 1.0), while \<open>update(board, 2 * \<delta>)\<close> once raises
  the cell by one unit in the last place on each of its 8 additions; \<open>evaluate\<close> on the
  empty board then differs. The product \<open>2 * \<delta>\<close> is exact.
\<close>

theorem update_not_linear:
  "num_mul ieee_ops 2 (3 / 2 ^ 26) = 6 / 2 ^ 26 \<and>
   evaluate ieee_ops
     (update ieee_ops (update ieee_ops unit_network empty_board (Finite (3 / 2 ^ 26)))
        empty_board (Finite (3 / 2 ^ 26))) empty_board = Finite 56 \<and>
   evaluate ieee_ops (update ieee_ops unit_network empty_board (Finite (6 / 2 ^ 26))) empty_board =
     Finite (56 + 7 / 131072) \<and>
   Finite 56 \<noteq> Finite (56 + 7 / 131072)"
proof -
  have "float64_round (2 * (3 / 2 ^ 26)) = 6 / 2 ^ 26"
    by code_simp
  then have "num_mul ieee_ops 2 (3 / 2 ^ 26) = 6 / 2 ^ 26" by (simp add: ieee_ops_def)
  then show ?thesis
    by (simp only: evaluate_twice_delta evaluate_once_double_delta) simp
qed

theorem update_zero_keeps_evaluate_witness:
  "evaluate ieee_ops
     (update ieee_ops unit_network [1,2,3,4, 0,0,0,0, 0,0,0,0, 0,0,0,15] (Finite 0)) empty_board =
   Finite 56"
  using update_zero_keeps_evaluate [OF same_catalog_unit valid_empty_board,
      of "[1,2,3,4, 0,0,0,0, 0,0,0,0, 0,0,0,15]"]
  by (simp add: evaluate_unit)

section \<open>The text form of the tables\<close>

lemma load_save:
  assumes "same_catalog net" "same_catalog net'"
  shows "load ops net' (save ops net) =
     (None, net'\<lparr> patterns :=
        with_luts (patterns net') (map (\<lambda>p. map (through_text ops) (lut p)) (patterns net)) \<rparr>)"
proof -
  let ?ds = "wd_patterns (save ops net)"
  have cnt: "wd_numPatterns (save ops net) = int (length (patterns net'))"
    using assms by (simp add: save_def same_catalog_length)
  have len: "length (patterns net') = length ?ds"
    using assms by (simp add: save_def same_catalog_length)
  have wf: "\<forall>d\<in>set ?ds. int (length (sp_lut d)) = sp_lutSize d"
    by (auto simp: save_def)
  have "map (\<lambda>d. length (sp_lut d)) ?ds = map (\<lambda>p. length (lut p)) (patterns net)"
    by (simp add: save_def comp_def)
  then have "first_mismatch (map (\<lambda>p. length (lut p)) (patterns net'))
      (map (\<lambda>d. length (sp_lut d)) ?ds) = None"
    using same_catalog_lut_lengths [OF assms] by (simp add: first_mismatch_same)
  from apply_saved_ok [OF len wf this, of ops 0]
  have "apply_saved ops 0 (patterns net') ?ds =
      (None, with_luts (patterns net')
         (map (\<lambda>d. map (\<lambda>x. f32_write ops (to_number x)) (sp_lut d)) ?ds))" .
  moreover have "map (\<lambda>d. map (\<lambda>x. f32_write ops (to_number x)) (sp_lut d)) ?ds =
      map (\<lambda>p. map (through_text ops) (lut p)) (patterns net)"
    by (simp add: save_def comp_def through_text_def)
  ultimately show ?thesis
    using cnt by (simp add: load_spec)
qed

lemma loaded_nth:
  assumes "same_catalog net" "same_catalog net'" "i < length (patterns net)"
  shows "patterns (snd (load ops net' (save ops net))) ! i =
     (patterns net' ! i)\<lparr> lut := map (through_text ops) (lut (patterns net ! i)) \<rparr>"
  using assms by (simp add: load_save with_luts_def same_catalog_length)

lemma length_loaded:
  assumes "same_catalog net" "same_catalog net'"
  shows "length (patterns (snd (load ops net' (save ops net)))) = length (patterns net)"
  using assms by (simp add: load_save with_luts_def same_catalog_length)

lemma same_catalog_loaded:
  assumes "same_catalog net" "same_catalog net'"
  shows "same_catalog (snd (load ops net' (save ops net)))"
  unfolding same_catalog_def
proof (rule nth_equalityI)
  show "length (map (\<lambda>p. (tupleLen p, variants p, length (lut p)))
      (patterns (snd (load ops net' (save ops net))))) =
    length (map (\<lambda>b. (length b, allSymmetries b, lutSize (length b))) BASE_PATTERNS)"
    using same_catalog_count [OF assms(1)] by (simp add: length_loaded [OF assms])
next
  fix i assume "i < length (map (\<lambda>p. (tupleLen p, variants p, length (lut p)))
      (patterns (snd (load ops net' (save ops net)))))"
  then have i: "i < length (patterns net)" "i < length (patterns net')"
    "i < length BASE_PATTERNS"
    using assms same_catalog_count [OF assms(1)]
    by (simp_all add: length_loaded [OF assms] same_catalog_length)
  from same_catalog_nth [OF assms(1) i(1)] same_catalog_nth [OF assms(2) i(2)] i
  show "map (\<lambda>p. (tupleLen p, variants p, length (lut p)))
      (patterns (snd (load ops net' (save ops net)))) ! i =
    map (\<lambda>b. (length b, allSymmetries b, lutSize (length b))) BASE_PATTERNS ! i"
    by (simp add: length_loaded [OF assms] loaded_nth [OF assms i(1)])
qed

lemma slot0_loaded:
  assumes "same_catalog net" "same_catalog net'"
    and "\<forall>p\<in>set (patterns net). lut p ! 0 = c"
  shows "\<forall>p\<in>set (patterns (snd (load ops net' (save ops net)))). lut p ! 0 = through_text ops c"
proof
  fix p assume "p \<in> set (patterns (snd (load ops net' (save ops net))))"
  then obtain i where i: "i < length (patterns net)"
    and p: "p = patterns (snd (load ops net' (save ops net))) ! i"
    by (auto simp: in_set_conv_nth length_loaded [OF assms(1,2)])
  let ?q = "patterns net ! i"
  have mem: "?q \<in> set (patterns net)" using i by simp
  from same_catalog_entry [OF assms(1) mem] obtain b :: "nat list" where
    "length (lut ?q) = lutSize (length b)" by blast
  with lutSize_pos [of "length b"] have "0 < length (lut ?q)" by simp
  with assms(3) mem show "lut p ! 0 = through_text ops c"
    by (simp add: p loaded_nth [OF assms(1,2) i])
qed

lemma through_text_finite:
  "float32_value w = Finite r \<Longrightarrow> float32_value (through_text ieee_ops w) = Finite r"
  by (simp add: through_text_def ieee_ops_def json_number_def to_number_def float32_store_def
      float32_bits_float32_value)

lemma through_text_infinity: "through_text ieee_ops 0x7F800000 = 0"
  by (simp add: through_text_def ieee_ops_def json_number_def to_number_def float32_store_def
      float32_value_infinities float32_bits_def round_to_precision_def)

lemma through_text_reads:
  assumes "list_all (\<lambda>w. is_finite (float32_value w)) l"
  shows "map (f32_read ieee_ops) (map (through_text ieee_ops) l) = map (f32_read ieee_ops) l"
proof -
  have "float32_value (through_text ieee_ops w) = float32_value w" if "w \<in> set l" for w
  proof (cases "float32_value w")
    case (Finite r)
    then show ?thesis by (simp add: through_text_finite)
  qed (use assms that in \<open>auto simp: list_all_iff\<close>)
  then show ?thesis by (simp add: ieee_ops_def)
qed

lemma evaluate_after_load_save:
  assumes cat: "same_catalog net" "same_catalog net'"
    and fin: "finite_tables net" and board: "valid_board board"
  shows "evaluate ieee_ops (snd (load ieee_ops net' (save ieee_ops net))) board =
         evaluate ieee_ops net board"
proof (rule evaluate_same_reads [OF cat(1) same_catalog_loaded [OF cat] board], intro allI impI)
  fix i assume i: "i < length (patterns net)"
  then have "patterns net ! i \<in> set (patterns net)" by simp
  with fin have "list_all (\<lambda>w. is_finite (float32_value w)) (lut (patterns net ! i))"
    by (simp add: finite_tables_def list_all_iff)
  then show "map (f32_read ieee_ops)
      (lut (patterns (snd (load ieee_ops net' (save ieee_ops net))) ! i)) =
    map (f32_read ieee_ops) (lut (patterns net ! i))"
    using through_text_reads by (simp add: loaded_nth [OF cat i])
qed

section \<open>The round trip of a network state\<close>

lemma map_lut_with_luts: "length ps = length ts \<Longrightarrow> map lut (with_luts ps ts) = ts"
  unfolding with_luts_def by (induction ps ts rule: list_induct2) simp_all

lemma patterns_unit:
  "patterns unit_network =
     map (\<lambda>p. p\<lparr> lut := (lut p)[0 := 0x3F800000] \<rparr>) (patterns new_NTupleNetwork)"
proof -
  have "p\<lparr> lut := (lut p)[0 := (add_to_cell ieee_ops (Finite (1 / 8)) ^^ 8) (lut p ! 0)] \<rparr> =
      p\<lparr> lut := (lut p)[0 := 0x3F800000] \<rparr>"
    if "p \<in> set (patterns new_NTupleNetwork)" for p
    using slot0_new that by (simp add: eight_eighths)
  then show ?thesis
    unfolding unit_network_def update_empty_board [OF same_catalog_new] by simp
qed

lemma finite_tables_unit: "finite_tables unit_network"
proof -
  have "is_finite (float32_value w)"
    if p: "p \<in> set (patterns new_NTupleNetwork)" and w: "w \<in> set ((lut p)[0 := 0x3F800000])"
    for p w
  proof -
    from p have "set (lut p) \<subseteq> {0}"
      by (auto simp: new_NTupleNetwork_def new_pattern_def Let_def)
    with w set_update_subset_insert [of "lut p" 0 "0x3F800000"]
    have "w = 0x3F800000 \<or> w = 0" by auto
    then show ?thesis by (auto simp: decode_eighths)
  qed
  then show ?thesis
    unfolding patterns_unit finite_tables_def by (auto simp: list_all_iff)
qed

text \<open>
  C4, as stated, fails for the text form. In the state reached by
  \<open>update(board, 2 ^ 128)\<close> on the empty board, slot 0 of every table holds \<open>Infinity\<close>;
  \<open>save\<close> writes it as \<open>null\<close>, \<open>load\<close> returns without error and stores 0, and
  \<open>evaluate\<close> on the empty board is \<open>Infinity\<close> before the round trip and 0 after it.
\<close>

theorem text_roundtrip_loses_infinity:
  "fst (load ieee_ops new_NTupleNetwork (save ieee_ops overflown_network)) = None \<and>
   evaluate ieee_ops overflown_network empty_board = PosInfinity \<and>
   evaluate ieee_ops (snd (load ieee_ops new_NTupleNetwork (save ieee_ops overflown_network)))
     empty_board = Finite 0"
proof -
  let ?loaded = "snd (load ieee_ops new_NTupleNetwork (save ieee_ops overflown_network))"
  have cat: "same_catalog ?loaded"
    using same_catalog_overflown same_catalog_new by (rule same_catalog_loaded)
  have "\<forall>p\<in>set (patterns ?loaded). lut p ! 0 = through_text ieee_ops 0x7F800000"
    using same_catalog_overflown same_catalog_new slot0_overflown by (rule slot0_loaded)
  then have slot: "\<forall>p\<in>set (patterns ?loaded). lut p ! 0 = 0"
    by (simp only: through_text_infinity)
  have "evaluate ieee_ops ?loaded empty_board = Finite 0"
    using evaluate_empty_board_ieee [OF cat slot decode_eighths(1), of 0 0] by simp
  moreover have "fst (load ieee_ops new_NTupleNetwork (save ieee_ops overflown_network)) = None"
    by (simp add: load_save [OF same_catalog_overflown same_catalog_new])
  ultimately show ?thesis by (simp add: evaluate_overflown)
qed

text \<open>
  C4, amended. For networks with the constructor's catalog, in every state:
  \<open>loadBinary\<close> of the file written by \<open>saveBinary\<close> returns without error and leaves the
  receiving network with bit-identical tables, so \<open>evaluate\<close> agrees on every board.
  \<open>load\<close> of the data written by \<open>save\<close> returns without error; each cell comes back as
  the single-precision pattern of the number written for it, \<open>null\<close> (for \<open>Infinity\<close>,
  \<open>-Infinity\<close> and \<open>NaN\<close>) as 0; and when every cell of the saved network holds a finite
  number, \<open>evaluate\<close> agrees on every board of the game.
\<close>

theorem weight_file_roundtrip:
  assumes "same_catalog net" and "same_catalog net'"
  shows "loadBinary net' (saveBinary net) = (None, net'\<lparr> patterns := patterns net \<rparr>) \<and>
         map lut (patterns (snd (loadBinary net' (saveBinary net)))) = map lut (patterns net) \<and>
         evaluate ops (snd (loadBinary net' (saveBinary net))) board = evaluate ops net board \<and>
         fst (load ieee_ops net' (save ieee_ops net)) = None \<and>
         map lut (patterns (snd (load ieee_ops net' (save ieee_ops net)))) =
           map (\<lambda>p. map (through_text ieee_ops) (lut p)) (patterns net) \<and>
         (finite_tables net \<and> valid_board board' \<longrightarrow>
            evaluate ieee_ops (snd (load ieee_ops net' (save ieee_ops net))) board' =
            evaluate ieee_ops net board')"
proof -
  note bin = loadBinary_saveBinary [OF assms]
  have "evaluate ops (net'\<lparr> patterns := patterns net \<rparr>) board = evaluate ops net board"
    by (rule evaluate_patterns) simp
  moreover have "fst (load ieee_ops net' (save ieee_ops net)) = None"
    unfolding load_save [OF assms] by simp
  moreover have "map lut (patterns (snd (load ieee_ops net' (save ieee_ops net)))) =
      map (\<lambda>p. map (through_text ieee_ops) (lut p)) (patterns net)"
    unfolding load_save [OF assms] using assms
    by (simp add: map_lut_with_luts same_catalog_length)
  ultimately show ?thesis
    using evaluate_after_load_save [OF assms, of board'] by (simp add: bin)
qed

theorem weight_file_roundtrip_witness:
  "loadBinary new_NTupleNetwork (saveBinary unit_network) =
     (None, new_NTupleNetwork\<lparr> patterns := patterns unit_network \<rparr>) \<and>
   fst (load ieee_ops new_NTupleNetwork (save ieee_ops unit_network)) = None \<and>
   evaluate ieee_ops (snd (load ieee_ops new_NTupleNetwork (save ieee_ops unit_network)))
     empty_board = Finite 56 \<and>
   evaluate ieee_ops (snd (loadBinary new_NTupleNetwork (saveBinary unit_network)))
     empty_board = Finite 56 \<and>
   evaluate ieee_ops new_NTupleNetwork empty_board = Finite 0"
proof -
  note r = weight_file_roundtrip [OF same_catalog_unit same_catalog_new,
      of ieee_ops empty_board empty_board]
  from r have 1: "loadBinary new_NTupleNetwork (saveBinary unit_network) =
     (None, new_NTupleNetwork\<lparr> patterns := patterns unit_network \<rparr>)"
    by (rule conjunct1)
  from r have 2: "evaluate ieee_ops (snd (loadBinary new_NTupleNetwork (saveBinary unit_network)))
     empty_board = evaluate ieee_ops unit_network empty_board"
    by blast
  from r have 3: "fst (load ieee_ops new_NTupleNetwork (save ieee_ops unit_network)) = None"
    by blast
  from r finite_tables_unit valid_empty_board
  have 4: "evaluate ieee_ops (snd (load ieee_ops new_NTupleNetwork (save ieee_ops unit_network)))
     empty_board = evaluate ieee_ops unit_network empty_board"
    by blast
  show ?thesis
    unfolding 2 4 evaluate_unit evaluate_new using 1 3 by simp
qed

end
